theory Spec2Isabelle
  imports Complex_Main "HOL-Library.FSet" "HOL-Library.Multiset"
begin

section \<open>Conventions of the embedding\<close>

text \<open>
  JavaScript numbers are modelled as \<open>real\<close> where the source computes with fractions
  (similarities, confidences, reliabilities), as \<open>int\<close> where it computes with integers that
  may be negative (subtask ids parsed with \<open>parseInt\<close>, the threshold \<open>k\<close>, the vote margin) and
  as \<open>nat\<close> for lengths, sizes and array indices.  A JavaScript \<open>Set\<close> of tokens is a finite set
  (\<open>fset\<close>).  A property that is \<open>undefined\<close> in the source is \<open>None\<close>.  An exception is the
  \<open>Inl\<close> branch of a sum whose payload is the message of the \<open>Error\<close>.
  \<open>Array.prototype.sort\<close> with a comparator \<open>(a, b) => key b - key a\<close> is a stable descending
  sort, that is \<open>sort_key\<close> on the negated key.
\<close>

section \<open>CodeClusterer\<close>

subsection \<open>\<open>_jaccardSimilarity\<close>\<close>

definition jaccardSimilarity :: "'a fset \<Rightarrow> 'a fset \<Rightarrow> real" where
  "jaccardSimilarity set1 set2 =
     (if fcard set1 = 0 \<and> fcard set2 = 0 then 1
      else (let intersection = ffilter (\<lambda>x. x |\<in>| set2) set1;
                union = set1 |\<union>| set2
            in real (fcard intersection) / real (fcard union)))"

subsection \<open>Clusters\<close>

record member =
  code :: string
  index :: nat
  similarity :: real

record cluster =
  representative :: string
  members :: "member list"
  csize :: nat
  avgSimilarity :: real

text \<open>
  \<open>_buildSimilarityMatrix\<close>: the diagonal is 1, the entry above the diagonal is computed by
  \<open>_compareFeaturesEnhanced\<close> and mirrored below it.  The comparison works on features that the
  acorn parser extracts; both are parameters of the model.
\<close>

definition buildSimilarityMatrix :: "('f \<Rightarrow> 'f \<Rightarrow> real) \<Rightarrow> 'f list \<Rightarrow> real list list" where
  "buildSimilarityMatrix compareFeaturesEnhanced features =
     (let n = length features
      in map (\<lambda>i. map (\<lambda>j. if i = j then 1
                            else if i < j then compareFeaturesEnhanced (features ! i) (features ! j)
                            else compareFeaturesEnhanced (features ! j) (features ! i))
                      [0..<n])
             [0..<n])"

text \<open>
  The inner loop of \<open>_greedyCluster\<close> (\<open>for (let i = 0; i < n; i++)\<close>), one iteration: an
  unassigned response whose similarity to the representative reaches the threshold joins the
  cluster.
\<close>

definition absorb ::
  "string list \<Rightarrow> real list \<Rightarrow> real \<Rightarrow> nat \<Rightarrow> cluster \<times> nat set \<Rightarrow> cluster \<times> nat set" where
  "absorb codes row threshold i st =
     (case st of (cl, assigned) \<Rightarrow>
        if i \<in> assigned then (cl, assigned)
        else (let sim = row ! i
              in if threshold \<le> sim
                 then (cl\<lparr>members := members cl @ [\<lparr>code = codes ! i, index = i, similarity = sim\<rparr>],
                          csize := csize cl + 1\<rparr>,
                       insert i assigned)
                 else (cl, assigned)))"

text \<open>
  The outer loop of \<open>_greedyCluster\<close> (\<open>for (const candidate of candidates)\<close>), one iteration.
  The new cluster has no \<open>avgSimilarity\<close> until the inner loop is done; the model starts it at 0.
\<close>

definition startCluster ::
  "string list \<Rightarrow> real list list \<Rightarrow> real \<Rightarrow> nat \<Rightarrow> cluster list \<times> nat set \<Rightarrow> cluster list \<times> nat set" where
  "startCluster codes similarityMatrix threshold candidate st =
     (case st of (clusters, assigned) \<Rightarrow>
        if candidate \<in> assigned then (clusters, assigned)
        else (let cl0 = \<lparr>representative = codes ! candidate,
                         members = [\<lparr>code = codes ! candidate, index = candidate, similarity = 1\<rparr>],
                         csize = 1,
                         avgSimilarity = 0\<rparr>;
                  (cl1, assigned1) = fold (absorb codes (similarityMatrix ! candidate) threshold)
                                          [0..<length codes] (cl0, insert candidate assigned);
                  cl2 = cl1\<lparr>avgSimilarity := sum_list (map similarity (members cl1)) / real (csize cl1)\<rparr>
              in (clusters @ [cl2], assigned1)))"

definition greedyCluster :: "string list \<Rightarrow> real list list \<Rightarrow> real \<Rightarrow> cluster list" where
  "greedyCluster codes similarityMatrix threshold =
     (let n = length codes;
          candidates = sort_key (\<lambda>i. - (sum_list (similarityMatrix ! i) / real n)) [0..<n];
          (clusters, assigned) = fold (startCluster codes similarityMatrix threshold) candidates ([], {})
      in sort_key (\<lambda>c. - int (csize c)) clusters)"

definition cluster ::
  "(string \<Rightarrow> 'f) \<Rightarrow> ('f \<Rightarrow> 'f \<Rightarrow> real) \<Rightarrow> string list \<Rightarrow> real \<Rightarrow> cluster list" where
  "cluster extractFeatures compareFeaturesEnhanced responses similarityThreshold =
     (if length responses = 0 then []
      else if length responses = 1
      then [\<lparr>representative = responses ! 0,
             members = [\<lparr>code = responses ! 0, index = 0, similarity = 1\<rparr>],
             csize = 1,
             avgSimilarity = 1\<rparr>]
      else (let features = map extractFeatures responses;
                similarityMatrix = buildSimilarityMatrix compareFeaturesEnhanced features
            in greedyCluster responses similarityMatrix similarityThreshold))"

section \<open>VotingManager\<close>

subsection \<open>\<open>calculateOptimalK\<close>\<close>

definition calculateOptimalK :: "real \<Rightarrow> real \<Rightarrow> int" where
  "calculateOptimalK problemSteps baseReliability =
     (let baseK = \<lceil>log 2 (problemSteps + 1)\<rceil>;
          reliabilityFactor = max 1 (2 * (1 - baseReliability));
          optimalK = \<lceil>of_int baseK * reliabilityFactor\<rceil>
      in max 2 (min 10 optimalK))"

subsection \<open>\<open>vote\<close>\<close>

record candidate =
  cand_index :: nat
  content :: string

text \<open>What \<open>vote\<close> reads of a \<open>ResponseValidator.validate\<close> result.\<close>

record validation =
  valid :: bool
  v_confidence :: real

record votingStats =
  totalCandidates :: nat
  validCandidates :: nat
  clusterCount :: nat
  winnerVotes :: "nat option"
  runnerUpVotes :: "nat option"
  margin :: "int option"
  votesNeeded :: int
  reliable :: bool

text \<open>
  The object \<open>vote\<close> returns.  \<open>result_reliable\<close> is the property \<open>reliable\<close> of the returned
  object itself, which \<open>MicroagentExecutor.executeTask\<close> reads; no return statement of \<open>vote\<close>
  sets it.
\<close>

record votingResult =
  winner :: string
  confidence :: real
  votingStats :: votingStats
  clusters :: "cluster list"
  warning :: "string option"
  result_reliable :: "bool option"

record voteOptions =
  opt_k :: "int option"
  opt_maxCandidates :: "nat option"

record voteEntry =
  clusterIndex :: nat
  vote_cluster :: cluster
  votes :: nat
  vote_representative :: string

definition defaultK :: int where
  "defaultK = 3"

definition defaultMaxCandidates :: nat where
  "defaultMaxCandidates = 10"

definition similarityThreshold :: real where
  "similarityThreshold = 0.7"

text \<open>\<open>options.k || this.defaultK\<close> and \<open>options.maxCandidates || this.maxCandidates\<close>.\<close>

definition effectiveK :: "voteOptions \<Rightarrow> int" where
  "effectiveK options = (case opt_k options of None \<Rightarrow> defaultK | Some v \<Rightarrow> if v = 0 then defaultK else v)"

definition effectiveMaxCandidates :: "voteOptions \<Rightarrow> nat" where
  "effectiveMaxCandidates options =
     (case opt_maxCandidates options of None \<Rightarrow> defaultMaxCandidates
      | Some v \<Rightarrow> if v = 0 then defaultMaxCandidates else v)"

text \<open>
  \<open>generateCandidates\<close>: request \<open>i\<close> of the completion provider is \<open>provider i\<close>, \<open>None\<close> when
  the request throws or returns no response; a response with empty content is skipped as well.
  The random temperature only reaches the provider.
\<close>

definition generateCandidates :: "(nat \<Rightarrow> string option) \<Rightarrow> nat \<Rightarrow> candidate list" where
  "generateCandidates provider count_n =
     concat (map (\<lambda>i. case provider i of
                         None \<Rightarrow> []
                       | Some c \<Rightarrow> if c = [] then [] else [\<lparr>cand_index = i, content = c\<rparr>])
                 [0..<count_n])"

definition calculateConfidence :: "voteEntry \<Rightarrow> nat \<Rightarrow> int \<Rightarrow> nat \<Rightarrow> real" where
  "calculateConfidence winnerEntry runnerUpVotesN k totalValid =
     (let margin = int (votes winnerEntry) - int runnerUpVotesN;
          marginConfidence = min 1 (real_of_int margin / real_of_int k);
          clusterConfidence = avgSimilarity (vote_cluster winnerEntry);
          sampleConfidence = min 1 (real totalValid / 5);
          confidence = 0.5 * marginConfidence + 0.3 * clusterConfidence + 0.2 * sampleConfidence
      in max 0.1 (min 1 confidence))"

definition castVotes :: "cluster list \<Rightarrow> voteEntry list" where
  "castVotes cls =
     sort_key (\<lambda>v. - int (votes v))
       (map (\<lambda>(i, c). \<lparr>clusterIndex = i, vote_cluster = c, votes = csize c,
                        vote_representative = representative c\<rparr>)
            (enumerate 0 cls))"

definition redFlag :: "(string \<Rightarrow> validation) \<Rightarrow> candidate list \<Rightarrow> (candidate \<times> validation) list" where
  "redFlag validate candidates =
     filter (\<lambda>(c, v). valid v) (map (\<lambda>c. (c, validate (content c))) candidates)"

text \<open>
  \<open>vote\<close>.  The two early returns have no property \<open>clusters\<close> and no vote counts; the model
  gives them the empty list and \<open>None\<close>.  The warning of the last return interpolates the margin
  and \<open>k\<close> into its text; the model keeps the text without the two numbers.  When the array of
  vote entries is empty, reading \<open>winner.votes\<close> throws.
\<close>

definition vote ::
  "(nat \<Rightarrow> string option) \<Rightarrow> (string \<Rightarrow> validation) \<Rightarrow> (string \<Rightarrow> 'f) \<Rightarrow> ('f \<Rightarrow> 'f \<Rightarrow> real) \<Rightarrow>
   voteOptions \<Rightarrow> string + votingResult" where
  "vote provider validate extractFeatures compareFeaturesEnhanced options =
     (let k = effectiveK options;
          maxCandidates = effectiveMaxCandidates options;
          candidates = generateCandidates provider maxCandidates
      in if length candidates = 0 then Inl ''Failed to generate any candidates''
         else
           (let validCandidates = redFlag validate candidates
            in if length validCandidates = 0
               then (let bestInvalid = hd (sort_key (\<lambda>c. - v_confidence (validate (content c))) candidates)
                     in Inr \<lparr>winner = content bestInvalid,
                             confidence = 0.3,
                             votingStats = \<lparr>totalCandidates = length candidates,
                                             validCandidates = 0,
                                             clusterCount = 0,
                                             winnerVotes = None,
                                             runnerUpVotes = None,
                                             margin = None,
                                             votesNeeded = k,
                                             reliable = False\<rparr>,
                             clusters = [],
                             warning = Some ''All candidates failed validation - returning least bad option'',
                             result_reliable = None\<rparr>)
               else if length validCandidates = 1
               then Inr \<lparr>winner = content (fst (validCandidates ! 0)),
                         confidence = v_confidence (snd (validCandidates ! 0)),
                         votingStats = \<lparr>totalCandidates = length candidates,
                                         validCandidates = 1,
                                         clusterCount = 1,
                                         winnerVotes = None,
                                         runnerUpVotes = None,
                                         margin = None,
                                         votesNeeded = k,
                                         reliable = False\<rparr>,
                         clusters = [],
                         warning = Some ''Only one valid candidate - no voting performed'',
                         result_reliable = None\<rparr>
               else
                 (let responseCodes = map (\<lambda>(c, v). content c) validCandidates;
                      cls = cluster extractFeatures compareFeaturesEnhanced responseCodes similarityThreshold
                  in case castVotes cls of
                       [] \<Rightarrow> Inl ''TypeError: Cannot read properties of undefined''
                     | winnerEntry # rest \<Rightarrow>
                         (let runnerUpVotesN = (case rest of [] \<Rightarrow> 0 | runnerUp # _ \<Rightarrow> votes runnerUp);
                              marginN = int (votes winnerEntry) - int runnerUpVotesN;
                              hasWinner = (k \<le> marginN);
                              conf = calculateConfidence winnerEntry runnerUpVotesN k (length validCandidates)
                          in Inr \<lparr>winner = vote_representative winnerEntry,
                                  confidence = conf,
                                  votingStats = \<lparr>totalCandidates = length candidates,
                                                  validCandidates = length validCandidates,
                                                  clusterCount = length cls,
                                                  winnerVotes = Some (votes winnerEntry),
                                                  runnerUpVotes = Some runnerUpVotesN,
                                                  margin = Some marginN,
                                                  votesNeeded = k,
                                                  reliable = hasWinner\<rparr>,
                                  clusters = cls,
                                  warning = (if hasWinner then None
                                             else Some ''Margin below threshold - result may be unreliable''),
                                  result_reliable = None\<rparr>))))"

section \<open>TaskDecomposer\<close>

datatype taskStatus = Pending | Completed

record subtask =
  task_id :: int
  action :: string
  description :: string
  task_type :: string
  target :: string
  depends :: "int list"
  status :: taskStatus
  estimatedTokens :: nat

text \<open>\<open>Array.prototype.findIndex\<close>; the result \<open>-1\<close> of the source is \<open>None\<close>.\<close>

fun findIndex :: "('a \<Rightarrow> bool) \<Rightarrow> 'a list \<Rightarrow> nat option" where
  "findIndex P [] = None"
| "findIndex P (x # xs) = (if P x then Some 0 else map_option Suc (findIndex P xs))"

subsection \<open>\<open>_validateSubtasks\<close>\<close>

definition remapDepends :: "subtask list \<Rightarrow> int list \<Rightarrow> int list" where
  "remapDepends subtasks ds =
     filter (\<lambda>d. 0 < d \<and> d \<le> int (length subtasks))
       (map (\<lambda>d. case findIndex (\<lambda>st. task_id st = d) subtasks of
                    Some oldIndex \<Rightarrow> int oldIndex + 1
                  | None \<Rightarrow> d)
            ds)"

definition validateSubtasks :: "subtask list \<Rightarrow> subtask list" where
  "validateSubtasks subtasks =
     map (\<lambda>(idx, task). task\<lparr>task_id := int idx + 1,
                               depends := remapDepends subtasks (depends task)\<rparr>)
         (enumerate 0 subtasks)"

subsection \<open>\<open>_buildDependencyGraph\<close>\<close>

record node =
  task :: subtask
  dependsOn :: "int list"
  requiredBy :: "int list"

text \<open>
  The graph object is an association list whose order is the order of \<open>Object.keys\<close>:
  the keys that are array indices (the integers from 0 to \<open>2^32 - 2\<close>) ascending, then the
  other keys in the order of their first insertion.  Storing a key again replaces the node and
  keeps the position.  Ids are integers, so \<open>parseInt\<close> gives back the id from its key.
\<close>

type_synonym graph = "(int \<times> node) list"

definition isArrayIndex :: "int \<Rightarrow> bool" where
  "isArrayIndex i = (0 \<le> i \<and> i < 4294967295)"

definition objectKeys :: "int list \<Rightarrow> int list" where
  "objectKeys inserted =
     sort (remdups (filter isArrayIndex inserted))
     @ rev (remdups (rev (filter (\<lambda>i. \<not> isArrayIndex i) inserted)))"

definition buildDependencyGraph :: "subtask list \<Rightarrow> graph" where
  "buildDependencyGraph subtasks =
     map (\<lambda>key. (key,
                  (let t = last (filter (\<lambda>t. task_id t = key) subtasks)
                   in \<lparr>task = t,
                       dependsOn = depends t,
                       requiredBy = concat (map (\<lambda>t'. map (\<lambda>depId. task_id t')
                                                        (filter (\<lambda>depId. depId = key) (depends t')))
                                                subtasks)\<rparr>)))
         (objectKeys (map task_id subtasks))"

subsection \<open>\<open>_topologicalSort\<close>\<close>

text \<open>
  The closure \<open>visit\<close> recurses through the dependencies and shares \<open>visited\<close> and \<open>order\<close>
  with its caller; the model threads both through the calls.  The recursion is bounded by
  fuel, \<open>None\<close> meaning that the fuel ran out; \<open>topologicalSort_run\<close> below shows that the
  fuel \<open>_topologicalSort\<close> is given always suffices.
\<close>

type_synonym visitState = "int set \<times> int list"

fun forEachM :: "('a \<Rightarrow> 's \<Rightarrow> 's option) \<Rightarrow> 'a list \<Rightarrow> 's \<Rightarrow> 's option" where
  "forEachM f [] s = Some s"
| "forEachM f (x # xs) s = (case f x s of None \<Rightarrow> None | Some s' \<Rightarrow> forEachM f xs s')"

primrec visit :: "nat \<Rightarrow> graph \<Rightarrow> int \<Rightarrow> visitState \<Rightarrow> visitState option" where
  "visit 0 graph nodeId st = None"
| "visit (Suc fuel) graph nodeId st =
     (case st of (visited, order) \<Rightarrow>
        if nodeId \<in> visited then Some (visited, order)
        else (case map_of graph nodeId of
                None \<Rightarrow> Some (insert nodeId visited, order)
              | Some node \<Rightarrow>
                  (case forEachM (visit fuel graph) (dependsOn node) (insert nodeId visited, order) of
                     None \<Rightarrow> None
                   | Some (visited', order') \<Rightarrow> Some (visited', order' @ [nodeId]))))"

definition topologicalSort :: "graph \<Rightarrow> int list option" where
  "topologicalSort graph =
     map_option snd (forEachM (visit (Suc (length graph)) graph) (map fst graph) ({}, []))"

subsection \<open>\<open>decompose\<close> and \<open>completeSubtask\<close>\<close>

record plan =
  subtasks :: "subtask list"
  dependencyGraph :: graph
  executionOrder :: "int list"
  totalSteps :: nat

text \<open>
  \<open>decompose\<close> after the decomposition itself: \<open>raw\<close> is what \<open>_decomposeWithAI\<close> or
  \<open>_decomposeRuleBased\<close> returned.  Of the complexity estimate only \<open>totalSteps\<close> is read by
  the executor.
\<close>

definition decompose :: "subtask list \<Rightarrow> plan option" where
  "decompose raw =
     (let sts = validateSubtasks raw;
          g = buildDependencyGraph sts
      in case topologicalSort g of
           None \<Rightarrow> None
         | Some ord \<Rightarrow> Some \<lparr>subtasks = sts, dependencyGraph = g, executionOrder = ord,
                             totalSteps = length sts\<rparr>)"

definition completeSubtask :: "subtask list \<Rightarrow> int \<Rightarrow> subtask list" where
  "completeSubtask sts taskId =
     map (\<lambda>t. if task_id t = taskId then t\<lparr>status := Completed\<rparr> else t) sts"

section \<open>MicroagentExecutor\<close>

record execOptions =
  baseReliability :: "real option"
  criticalTask :: bool
  requireHighConfidence :: bool
  stopOnError :: bool
  exec_maxCandidates :: "nat option"

datatype logStatus = Success | Warning | Error

record logEntry =
  log_taskId :: int
  log_status :: logStatus
  log_confidence :: "real option"
  log_error :: "string option"

record resultEntry =
  res_subtask :: subtask
  res_result :: string
  res_confidence :: real

record execState =
  cur_subtasks :: "subtask list"
  executionLog :: "logEntry list"
  results :: "resultEntry list"
  completedCount :: nat
  errorCount :: nat

text \<open>Phase 2: \<open>calculateOptimalK(totalSteps, options.baseReliability || 0.7)\<close>.\<close>

definition phase2K :: "execOptions \<Rightarrow> plan \<Rightarrow> int" where
  "phase2K options p =
     calculateOptimalK (real (totalSteps p))
       (case baseReliability options of None \<Rightarrow> 0.7 | Some r \<Rightarrow> if r = 0 then 0.7 else r)"

text \<open>The options object of the call of \<open>_executeSubtask\<close>, which hands it to \<open>vote\<close> unchanged.\<close>

definition votingOptions :: "execOptions \<Rightarrow> int \<Rightarrow> voteOptions" where
  "votingOptions options k =
     \<lparr>opt_k = Some (if criticalTask options then k + 1 else k),
      opt_maxCandidates = Some (case exec_maxCandidates options of None \<Rightarrow> 5
                                | Some m \<Rightarrow> if m = 0 then 5 else m)\<rparr>"

text \<open>
  The body of the \<open>try\<close> block for one subtask.  \<open>runVote subtask results options\<close> stands for
  \<open>_buildMinimalContext\<close> followed by \<open>_executeSubtask\<close>, that is for the call of \<open>vote\<close> with the
  prompt of the subtask; \<open>Inl\<close> is an exception.  \<open>_applyResult\<close> only prints and records.
\<close>

definition tryBody ::
  "(subtask \<Rightarrow> resultEntry list \<Rightarrow> voteOptions \<Rightarrow> string + votingResult) \<Rightarrow> execOptions \<Rightarrow> int \<Rightarrow>
   execState \<Rightarrow> int \<Rightarrow> subtask \<Rightarrow> string + execState" where
  "tryBody runVote options k st taskId sub =
     (case runVote sub (results st) (votingOptions options k) of
        Inl msg \<Rightarrow> Inl msg
      | Inr vr \<Rightarrow>
          if result_reliable vr = Some True
          then Inr (st\<lparr>completedCount := completedCount st + 1,
                       executionLog := executionLog st @
                         [\<lparr>log_taskId = taskId, log_status = Success,
                           log_confidence = Some (confidence vr), log_error = None\<rparr>],
                       results := results st @
                         [\<lparr>res_subtask = sub, res_result = winner vr, res_confidence = confidence vr\<rparr>],
                       cur_subtasks := completeSubtask (cur_subtasks st) taskId\<rparr>)
          else if requireHighConfidence options
          then Inl (''Subtask failed confidence threshold: '' @
                    (case warning vr of None \<Rightarrow> ''null'' | Some w \<Rightarrow> w))
          else Inr (st\<lparr>completedCount := completedCount st + 1,
                       executionLog := executionLog st @
                         [\<lparr>log_taskId = taskId, log_status = Warning,
                           log_confidence = Some (confidence vr), log_error = None\<rparr>],
                       results := results st @
                         [\<lparr>res_subtask = sub, res_result = winner vr, res_confidence = confidence vr\<rparr>],
                       cur_subtasks := completeSubtask (cur_subtasks st) taskId\<rparr>))"

text \<open>One iteration of \<open>for (const taskId of this.currentPlan.executionOrder)\<close>.\<close>

definition executeStep ::
  "(subtask \<Rightarrow> resultEntry list \<Rightarrow> voteOptions \<Rightarrow> string + votingResult) \<Rightarrow> execOptions \<Rightarrow> int \<Rightarrow>
   execState \<Rightarrow> int \<Rightarrow> string + execState" where
  "executeStep runVote options k st taskId =
     (case find (\<lambda>t. task_id t = taskId) (cur_subtasks st) of
        None \<Rightarrow> Inr st
      | Some sub \<Rightarrow>
          (case tryBody runVote options k st taskId sub of
             Inr st' \<Rightarrow> Inr st'
           | Inl msg \<Rightarrow>
               (let st' = st\<lparr>errorCount := errorCount st + 1,
                             executionLog := executionLog st @
                               [\<lparr>log_taskId = taskId, log_status = Error,
                                 log_confidence = None, log_error = Some msg\<rparr>]\<rparr>
                in if stopOnError options then Inl msg else Inr st')))"

fun executeLoop ::
  "(subtask \<Rightarrow> resultEntry list \<Rightarrow> voteOptions \<Rightarrow> string + votingResult) \<Rightarrow> execOptions \<Rightarrow> int \<Rightarrow>
   int list \<Rightarrow> execState \<Rightarrow> string + execState" where
  "executeLoop runVote options k [] st = Inr st"
| "executeLoop runVote options k (taskId # rest) st =
     (case executeStep runVote options k st taskId of
        Inl msg \<Rightarrow> Inl msg
      | Inr st' \<Rightarrow> executeLoop runVote options k rest st')"

text \<open>\<open>executeTask\<close> from Phase 2 on; the summary is computed from the final state.\<close>

definition executeTask ::
  "(subtask \<Rightarrow> resultEntry list \<Rightarrow> voteOptions \<Rightarrow> string + votingResult) \<Rightarrow> execOptions \<Rightarrow> plan \<Rightarrow>
   string + execState" where
  "executeTask runVote options p =
     executeLoop runVote options (phase2K options p) (executionOrder p)
       \<lparr>cur_subtasks = subtasks p, executionLog = [], results = [], completedCount = 0, errorCount = 0\<rparr>"

section \<open>Notions used in the statements\<close>

text \<open>The response indices of the members of a list of clusters, cluster after cluster.\<close>

definition memberIndices :: "cluster list \<Rightarrow> nat list" where
  "memberIndices cls = concat (map (\<lambda>c. map index (members c)) cls)"

text \<open>
  The invariant of the outer loop of \<open>_greedyCluster\<close>: the clusters built so far hold each
  index of \<open>assigned\<close> once and no other index, and \<open>size\<close> counts the members.
\<close>

definition partitionInv :: "nat \<Rightarrow> cluster list \<times> nat set \<Rightarrow> bool" where
  "partitionInv n st =
     (case st of (cls, A) \<Rightarrow>
        distinct (memberIndices cls) \<and> set (memberIndices cls) = A \<and> A \<subseteq> {0..<n}
        \<and> map csize cls = map (\<lambda>c. length (members c)) cls
        \<and> list_all (\<lambda>c. members c \<noteq> []) cls)"

text \<open>The array \<open>responseCodes\<close> of \<open>vote\<close>: the contents of the candidates that passed validation.\<close>

definition validContents :: "(nat \<Rightarrow> string option) \<Rightarrow> (string \<Rightarrow> validation) \<Rightarrow> voteOptions \<Rightarrow> string list" where
  "validContents provider validate options =
     map (\<lambda>(c, v). content c)
       (redFlag validate (generateCandidates provider (effectiveMaxCandidates options)))"

text \<open>
  The votes of the runner-up as the specification describes them: the second largest cluster size, and 0
  when there is only one cluster.
\<close>

definition runnerUpSize :: "cluster list \<Rightarrow> nat" where
  "runnerUpSize cls = (case rev (sort (map csize cls)) of a # b # _ \<Rightarrow> b | _ \<Rightarrow> 0)"

text \<open>The node ids of a dependency graph, and its edges from a node to the ids in \<open>dependsOn\<close>.\<close>

definition graphKeys :: "graph \<Rightarrow> int set" where
  "graphKeys g = fst ` set g"

definition dependencyEdges :: "graph \<Rightarrow> (int \<times> int) set" where
  "dependencyEdges g = {(a, b). \<exists>node. map_of g a = Some node \<and> b \<in> set (dependsOn node)}"

text \<open>
  What a call of \<open>visit\<close>, or a loop of such calls, does to \<open>visited\<close> and \<open>order\<close>: \<open>visited\<close>
  grows, and \<open>order\<close> is extended by the newly visited node ids of the graph, each once.
\<close>

definition visitPost :: "graph \<Rightarrow> visitState \<Rightarrow> visitState \<Rightarrow> bool" where
  "visitPost g st st' =
     (case st of (vis, ord) \<Rightarrow> case st' of (vis', ord') \<Rightarrow>
        vis \<subseteq> vis' \<and>
        (\<exists>new. ord' = ord @ new \<and> distinct new \<and> set new = (vis' - vis) \<inter> graphKeys g))"

text \<open>
  An order lists dependencies first when every node id in it is preceded by the node ids of its
  \<open>dependsOn\<close> list.  The nodes in progress are those visited and not yet emitted: the nodes
  on the call stack of \<open>visit\<close>.
\<close>

definition dependenciesFirst :: "graph \<Rightarrow> int list \<Rightarrow> bool" where
  "dependenciesFirst g ord =
     (\<forall>i < length ord. \<forall>node. map_of g (ord ! i) = Some node \<longrightarrow>
        set (dependsOn node) \<inter> graphKeys g \<subseteq> set (take i ord))"

definition inProgress :: "graph \<Rightarrow> visitState \<Rightarrow> int set" where
  "inProgress g st = (case st of (vis, ord) \<Rightarrow> (vis \<inter> graphKeys g) - set ord)"

text \<open>\<open>options.baseReliability || 0.7\<close>, the second argument of \<open>calculateOptimalK\<close> in Phase 2.\<close>

definition baseReliabilityOrDefault :: "execOptions \<Rightarrow> real" where
  "baseReliabilityOrDefault options =
     (case baseReliability options of None \<Rightarrow> 0.7 | Some r \<Rightarrow> if r = 0 then 0.7 else r)"

section \<open>Example inputs\<close>

definition pendingTask :: "int \<Rightarrow> int list \<Rightarrow> subtask" where
  "pendingTask i ds =
     \<lparr>task_id = i, action = ''create'', description = ''step'', task_type = ''create'',
      target = ''unknown'', depends = ds, status = Pending, estimatedTokens = 101\<rparr>"

definition threeStepPlan :: plan where
  "threeStepPlan =
     \<lparr>subtasks = [pendingTask 1 [], pendingTask 2 [1], pendingTask 3 [2]],
      dependencyGraph = buildDependencyGraph [pendingTask 1 [], pendingTask 2 [1], pendingTask 3 [2]],
      executionOrder = [1, 2, 3],
      totalSteps = 3\<rparr>"

definition criticalOptions :: execOptions where
  "criticalOptions =
     \<lparr>baseReliability = None, criticalTask = True, requireHighConfidence = False,
      stopOnError = False, exec_maxCandidates = None\<rparr>"

definition lenientOptions :: execOptions where
  "lenientOptions =
     \<lparr>baseReliability = None, criticalTask = False, requireHighConfidence = False,
      stopOnError = False, exec_maxCandidates = None\<rparr>"

text \<open>A voting round in which the provider produced no candidate: \<open>vote\<close> throws.\<close>

definition failingVote :: "subtask \<Rightarrow> resultEntry list \<Rightarrow> voteOptions \<Rightarrow> string + votingResult" where
  "failingVote sub rs vo = Inl ''Failed to generate any candidates''"

definition initialState :: "subtask list \<Rightarrow> execState" where
  "initialState sts =
     \<lparr>cur_subtasks = sts, executionLog = [], results = [], completedCount = 0, errorCount = 0\<rparr>"

text \<open>A voting round that returns a winner without a reliable margin.\<close>

definition unreliableResult :: votingResult where
  "unreliableResult =
     \<lparr>winner = ''const x = 1;'',
      confidence = 0.5,
      votingStats = \<lparr>totalCandidates = 5, validCandidates = 2, clusterCount = 2,
                      winnerVotes = Some 1, runnerUpVotes = Some 1, margin = Some 0,
                      votesNeeded = 2, reliable = False\<rparr>,
      clusters = [],
      warning = Some ''Margin below threshold - result may be unreliable'',
      result_reliable = None\<rparr>"

definition unreliableVote :: "subtask \<Rightarrow> resultEntry list \<Rightarrow> voteOptions \<Rightarrow> string + votingResult" where
  "unreliableVote sub rs vo = Inr unreliableResult"

definition warnedState :: execState where
  "warnedState =
     \<lparr>cur_subtasks = [(pendingTask 1 [])\<lparr>status := Completed\<rparr>],
      executionLog = [\<lparr>log_taskId = 1, log_status = Warning, log_confidence = Some 0.5,
                       log_error = None\<rparr>],
      results = [\<lparr>res_subtask = pendingTask 1 [], res_result = ''const x = 1;'',
                  res_confidence = 0.5\<rparr>],
      completedCount = 1,
      errorCount = 0\<rparr>"

text \<open>Raw decompositions: a dependency on a later step, and ids with gaps.\<close>

definition forwardDependsInput :: "subtask list" where
  "forwardDependsInput = [pendingTask 1 [1, 2], pendingTask 2 []]"

definition gappedInput :: "subtask list" where
  "gappedInput = [pendingTask 5 [], pendingTask 9 [5, 9, 7, 0, -1, 2]]"

text \<open>A voting round whose candidates are all rejected by the validator.\<close>

definition apologisingProvider :: "nat \<Rightarrow> string option" where
  "apologisingProvider i =
     (if i = 0 then Some ''I am sorry, I cannot help with that''
      else if i = 1 then None
      else if i = 2 then Some ''As an AI I do not understand''
      else Some '''')"

definition rejectingValidator :: "string \<Rightarrow> validation" where
  "rejectingValidator text = \<lparr>valid = False, v_confidence = 0\<rparr>"

definition threeCandidates :: voteOptions where
  "threeCandidates = \<lparr>opt_k = Some 2, opt_maxCandidates = Some 4\<rparr>"

text \<open>A voting round in which three of four valid candidates agree.\<close>

definition agreeingProvider :: "nat \<Rightarrow> string option" where
  "agreeingProvider i =
     (if i = 3 then Some ''let y = 2;'' else if i = 4 then None else Some ''const x = 1;'')"

definition acceptingValidator :: "string \<Rightarrow> validation" where
  "acceptingValidator text = \<lparr>valid = True, v_confidence = 1\<rparr>"

definition sameText :: "string \<Rightarrow> string \<Rightarrow> real" where
  "sameText a b = (if a = b then 1 else 0)"

definition fiveCandidates :: voteOptions where
  "fiveCandidates = \<lparr>opt_k = Some 2, opt_maxCandidates = Some 5\<rparr>"

definition agreedResult :: votingResult where
  "agreedResult =
     \<lparr>winner = ''const x = 1;'',
      confidence = 24 / 25,
      votingStats = \<lparr>totalCandidates = 4, validCandidates = 4, clusterCount = 2,
                      winnerVotes = Some 3, runnerUpVotes = Some 1, margin = Some 2,
                      votesNeeded = 2, reliable = True\<rparr>,
      clusters =
        [\<lparr>representative = ''const x = 1;'',
          members = [\<lparr>code = ''const x = 1;'', index = 0, similarity = 1\<rparr>,
                     \<lparr>code = ''const x = 1;'', index = 1, similarity = 1\<rparr>,
                     \<lparr>code = ''const x = 1;'', index = 2, similarity = 1\<rparr>],
          csize = 3, avgSimilarity = 1\<rparr>,
         \<lparr>representative = ''let y = 2;'',
          members = [\<lparr>code = ''let y = 2;'', index = 3, similarity = 1\<rparr>],
          csize = 1, avgSimilarity = 1\<rparr>],
      warning = None,
      result_reliable = None\<rparr>"

text \<open>A raw decomposition whose first step depends on the second, and its plan.\<close>

definition forwardPlanInput :: "subtask list" where
  "forwardPlanInput = [pendingTask 10 [20], pendingTask 20 []]"

definition forwardPlan :: plan where
  "forwardPlan =
     \<lparr>subtasks = [pendingTask 1 [2], pendingTask 2 []],
      dependencyGraph =
        [(1, \<lparr>task = pendingTask 1 [2], dependsOn = [2], requiredBy = []\<rparr>),
         (2, \<lparr>task = pendingTask 2 [], dependsOn = [], requiredBy = [1]\<rparr>)],
      executionOrder = [2, 1],
      totalSteps = 2\<rparr>"

text \<open>A dependency graph with a cycle.\<close>

definition cyclicGraph :: graph where
  "cyclicGraph =
     [(1, \<lparr>task = pendingTask 1 [2], dependsOn = [2], requiredBy = [2]\<rparr>),
      (2, \<lparr>task = pendingTask 2 [1], dependsOn = [1], requiredBy = [1]\<rparr>)]"

section \<open>Properties of the Jaccard similarity\<close>

lemma ffilter_member_inter: "ffilter (\<lambda>x. x |\<in>| B) A = A |\<inter>| B"
  by auto

lemma jaccardSimilarity_alt:
  "jaccardSimilarity A B =
     (if A = {||} \<and> B = {||} then 1 else real (fcard (A |\<inter>| B)) / real (fcard (A |\<union>| B)))"
  by (simp add: jaccardSimilarity_def ffilter_member_inter Let_def)

lemma jaccardSimilarity_example:
  "jaccardSimilarity {|''a'', ''b'', ''c''|} {|''b'', ''c'', ''d''|} = 1 / 2"
  by code_simp

text \<open>
  Claim C9.  The Jaccard similarity of two token sets is symmetric in its arguments, lies
  between 0 and 1, is 1 for two identical non-empty sets and is 0 for two disjoint non-empty
  sets.
\<close>

theorem jaccardSimilarity_properties:
  "jaccardSimilarity A B = jaccardSimilarity B A
   \<and> 0 \<le> jaccardSimilarity A B \<and> jaccardSimilarity A B \<le> 1
   \<and> (A \<noteq> {||} \<longrightarrow> jaccardSimilarity A A = 1)
   \<and> (A \<noteq> {||} \<and> B \<noteq> {||} \<and> A |\<inter>| B = {||} \<longrightarrow> jaccardSimilarity A B = 0)"
proof -
  have sym: "jaccardSimilarity A B = jaccardSimilarity B A"
    by (auto simp: jaccardSimilarity_alt inf_commute sup_commute)
  have "fcard (A |\<inter>| B) \<le> fcard (A |\<union>| B)"
    by (rule fcard_mono) auto
  then have bounds: "0 \<le> jaccardSimilarity A B \<and> jaccardSimilarity A B \<le> 1"
    by (auto simp: jaccardSimilarity_alt divide_le_eq_1)
  have same: "A \<noteq> {||} \<longrightarrow> jaccardSimilarity A A = 1"
    by (auto simp: jaccardSimilarity_alt)
  have disj: "A \<noteq> {||} \<and> B \<noteq> {||} \<and> A |\<inter>| B = {||} \<longrightarrow> jaccardSimilarity A B = 0"
    by (auto simp: jaccardSimilarity_alt)
  from sym bounds same disj show ?thesis by blast
qed

theorem jaccardSimilarity_properties_witness:
  "jaccardSimilarity {|''a'', ''b''|} {|''c''|} = jaccardSimilarity {|''c''|} {|''a'', ''b''|}
   \<and> jaccardSimilarity {|''a'', ''b''|} {|''a'', ''b''|} = 1
   \<and> jaccardSimilarity {|''a'', ''b''|} {|''c''|} = 0"
  using jaccardSimilarity_properties [of "{|''a'', ''b''|}" "{|''c''|}"] by simp

section \<open>The voting threshold\<close>

lemma log2_4: "log 2 4 = 2"
proof -
  have "log 2 (2 ^ 2) = real 2" by (rule log_pow_cancel) auto
  then show ?thesis by simp
qed

lemma log2_8: "log 2 8 = 3"
proof -
  have "log 2 (2 ^ 3) = real 3" by (rule log_pow_cancel) auto
  then show ?thesis by simp
qed

lemma calculateOptimalK_3: "calculateOptimalK 3 0.7 = 2"
  by (simp add: calculateOptimalK_def Let_def log2_4)

lemma calculateOptimalK_7_low: "calculateOptimalK 7 0.2 = 5"
proof -
  have "\<lceil>(24::real) / 5\<rceil> = 5" by (simp add: ceiling_eq_iff)
  then show ?thesis by (simp add: calculateOptimalK_def Let_def log2_8)
qed

lemma calculateOptimalK_ge_2: "2 \<le> calculateOptimalK s r"
  by (simp add: calculateOptimalK_def Let_def)

text \<open>
  Claim C3.  For a base reliability between 0 and 1, \<open>calculateOptimalK\<close> returns a value
  between 2 and 10 for every non-negative number of steps, and it does not decrease when the
  number of steps grows.
\<close>

theorem calculateOptimalK_range_mono:
  assumes "0 \<le> r" "r \<le> 1" "0 \<le> steps" "steps \<le> steps'"
  shows "2 \<le> calculateOptimalK steps r
         \<and> calculateOptimalK steps r \<le> 10
         \<and> calculateOptimalK steps r \<le> calculateOptimalK steps' r"
proof -
  let ?f = "max 1 (2 * (1 - r))"
  have "log 2 (steps + 1) \<le> log 2 (steps' + 1)" using assms by simp
  then have "\<lceil>log 2 (steps + 1)\<rceil> \<le> \<lceil>log 2 (steps' + 1)\<rceil>" by (rule ceiling_mono)
  then have "real_of_int \<lceil>log 2 (steps + 1)\<rceil> * ?f \<le> real_of_int \<lceil>log 2 (steps' + 1)\<rceil> * ?f"
    by (intro mult_right_mono) auto
  then have "\<lceil>real_of_int \<lceil>log 2 (steps + 1)\<rceil> * ?f\<rceil> \<le> \<lceil>real_of_int \<lceil>log 2 (steps' + 1)\<rceil> * ?f\<rceil>"
    by (rule ceiling_mono)
  then show ?thesis by (simp add: calculateOptimalK_def Let_def)
qed

theorem calculateOptimalK_range_mono_witness:
  "2 \<le> calculateOptimalK 3 0.7 \<and> calculateOptimalK 3 0.7 \<le> 10
   \<and> calculateOptimalK 3 0.7 \<le> calculateOptimalK 7 0.7"
  using calculateOptimalK_range_mono [of "0.7" 3 7] by simp

section \<open>The threshold handed to the voting round\<close>

lemma totalSteps_threeStepPlan: "totalSteps threeStepPlan = 3"
  by (simp add: threeStepPlan_def)

lemma phase2K_threeStepPlan: "phase2K criticalOptions threeStepPlan = 2"
  by (simp add: phase2K_def criticalOptions_def totalSteps_threeStepPlan calculateOptimalK_3)

lemma tryBody_threshold:
  "tryBody runVote options k st taskId sub =
   tryBody (\<lambda>s rs vo. runVote s rs (vo\<lparr>opt_k := Some (k + (if criticalTask options then 1 else 0))\<rparr>))
     options k st taskId sub"
  by (simp add: tryBody_def votingOptions_def)

lemma executeStep_threshold:
  "executeStep runVote options k st taskId =
   executeStep (\<lambda>s rs vo. runVote s rs (vo\<lparr>opt_k := Some (k + (if criticalTask options then 1 else 0))\<rparr>))
     options k st taskId"
  unfolding executeStep_def tryBody_threshold [of runVote options k st taskId, symmetric]
  by (rule refl)

lemma executeLoop_threshold:
  "executeLoop runVote options k ids st =
   executeLoop (\<lambda>s rs vo. runVote s rs (vo\<lparr>opt_k := Some (k + (if criticalTask options then 1 else 0))\<rparr>))
     options k ids st"
proof -
  define g where
    "g = (\<lambda>s rs vo. runVote s rs (vo\<lparr>opt_k := Some (k + (if criticalTask options then 1 else 0))\<rparr>))"
  have step: "executeStep runVote options k s taskId = executeStep g options k s taskId" for s taskId
    unfolding g_def by (rule executeStep_threshold)
  have "executeLoop runVote options k ids st = executeLoop g options k ids st"
  proof (induction ids arbitrary: st)
    case Nil
    show ?case by simp
  next
    case (Cons taskId rest)
    show ?case by (simp add: step Cons.IH split: sum.splits)
  qed
  then show ?thesis unfolding g_def .
qed

text \<open>
  Claim C8 as stated fails: with \<open>criticalTask\<close> set and a plan of three steps the base
  threshold is 2, the claim asks for 4, and the voting round is handed 3.
\<close>

theorem criticalTask_threshold_counterexample:
  "calculateOptimalK (real (totalSteps threeStepPlan)) (baseReliabilityOrDefault criticalOptions) = 2
   \<and> criticalTask criticalOptions
   \<and> opt_k (votingOptions criticalOptions (phase2K criticalOptions threeStepPlan)) = Some 3
   \<and> opt_k (votingOptions criticalOptions (phase2K criticalOptions threeStepPlan)) \<noteq> Some (2 + 2)"
proof -
  have a: "calculateOptimalK (real (totalSteps threeStepPlan)) (baseReliabilityOrDefault criticalOptions) = 2"
    by (simp add: totalSteps_threeStepPlan baseReliabilityOrDefault_def criticalOptions_def
          calculateOptimalK_3)
  have b: "criticalTask criticalOptions"
    by (simp add: criticalOptions_def)
  have c: "opt_k (votingOptions criticalOptions (phase2K criticalOptions threeStepPlan)) = Some 3"
    by (simp add: phase2K_threeStepPlan votingOptions_def b)
  from a b c show ?thesis by simp
qed

text \<open>
  Claim C8, amended.  Phase 2 computes the base threshold
  \<open>calculateOptimalK(totalSteps, options.baseReliability || 0.7)\<close> and does not increment it.
  The threshold handed to \<open>vote\<close> is the base threshold plus 1 when \<open>criticalTask\<close> is set
  and the base threshold otherwise; it is the threshold \<open>vote\<close> then works with; and
  \<open>executeTask\<close> hands every voting round this threshold and no other.
\<close>

theorem criticalTask_threshold:
  "opt_k (votingOptions options (phase2K options p))
     = Some (calculateOptimalK (real (totalSteps p)) (baseReliabilityOrDefault options)
             + (if criticalTask options then 1 else 0))
   \<and> effectiveK (votingOptions options (phase2K options p))
     = calculateOptimalK (real (totalSteps p)) (baseReliabilityOrDefault options)
       + (if criticalTask options then 1 else 0)
   \<and> executeTask runVote options p
     = executeTask (\<lambda>s rs vo. runVote s rs
          (vo\<lparr>opt_k := Some (calculateOptimalK (real (totalSteps p)) (baseReliabilityOrDefault options)
                              + (if criticalTask options then 1 else 0))\<rparr>)) options p"
proof -
  have k: "phase2K options p = calculateOptimalK (real (totalSteps p)) (baseReliabilityOrDefault options)"
    by (simp add: phase2K_def baseReliabilityOrDefault_def)
  have ge: "2 \<le> phase2K options p"
    unfolding k by (rule calculateOptimalK_ge_2)
  have a: "opt_k (votingOptions options (phase2K options p))
            = Some (phase2K options p + (if criticalTask options then 1 else 0))"
    by (simp add: votingOptions_def)
  have b: "effectiveK (votingOptions options (phase2K options p))
            = phase2K options p + (if criticalTask options then 1 else 0)"
    using ge by (simp add: effectiveK_def votingOptions_def)
  have c: "executeTask runVote options p
     = executeTask (\<lambda>s rs vo. runVote s rs
          (vo\<lparr>opt_k := Some (phase2K options p + (if criticalTask options then 1 else 0))\<rparr>)) options p"
    unfolding executeTask_def by (rule executeLoop_threshold)
  from a b c show ?thesis unfolding k by blast
qed

theorem criticalTask_threshold_witness:
  "opt_k (votingOptions criticalOptions (phase2K criticalOptions threeStepPlan)) = Some 3
   \<and> effectiveK (votingOptions criticalOptions (phase2K criticalOptions threeStepPlan)) = 3
   \<and> opt_k (votingOptions lenientOptions (phase2K lenientOptions threeStepPlan)) = Some 2"
proof -
  have k: "calculateOptimalK (real (totalSteps threeStepPlan)) (baseReliabilityOrDefault criticalOptions) = 2"
    by (simp add: totalSteps_threeStepPlan baseReliabilityOrDefault_def criticalOptions_def
          calculateOptimalK_3)
  have k': "calculateOptimalK (real (totalSteps threeStepPlan)) (baseReliabilityOrDefault lenientOptions) = 2"
    by (simp add: totalSteps_threeStepPlan baseReliabilityOrDefault_def lenientOptions_def
          calculateOptimalK_3)
  have c: "criticalTask criticalOptions" "\<not> criticalTask lenientOptions"
    by (simp_all add: criticalOptions_def lenientOptions_def)
  show ?thesis
    using criticalTask_threshold [of criticalOptions threeStepPlan failingVote]
      criticalTask_threshold [of lenientOptions threeStepPlan failingVote]
    by (simp add: k k' c)
qed

section \<open>Marking a subtask completed\<close>

lemma completeSubtask_marks:
  assumes "t \<in> set (completeSubtask sts taskId)" and "task_id t = taskId"
  shows "status t = Completed"
proof -
  from assms(1) have "t \<in> (\<lambda>x. if task_id x = taskId then x\<lparr>status := Completed\<rparr> else x) ` set sts"
    unfolding completeSubtask_def by (simp only: set_map)
  then obtain x where
    t: "t = (if task_id x = taskId then x\<lparr>status := Completed\<rparr> else x)"
    by (rule imageE)
  show ?thesis
  proof (cases "task_id x = taskId")
    case True
    with t show ?thesis by simp
  next
    case False
    with t have "t = x" by simp
    with False assms(2) show ?thesis by simp
  qed
qed

lemma tryBody_Inr:
  assumes "tryBody runVote options k st taskId sub = Inr st'"
  shows "\<exists>entry. executionLog st' = executionLog st @ [entry] \<and> log_taskId entry = taskId
           \<and> log_status entry \<noteq> Error
           \<and> cur_subtasks st' = completeSubtask (cur_subtasks st) taskId"
proof (cases "runVote sub (results st) (votingOptions options k)")
  case (Inl msg)
  with assms show ?thesis by (simp add: tryBody_def)
next
  case (Inr vr)
  show ?thesis
  proof (cases "result_reliable vr = Some True")
    case True
    with assms Inr show ?thesis by (auto simp add: tryBody_def)
  next
    case False
    with assms Inr show ?thesis
      by (cases "requireHighConfidence options") (auto simp add: tryBody_def)
  qed
qed

lemma executeStep_found:
  assumes "find (\<lambda>t. task_id t = taskId) (cur_subtasks st) = Some sub"
  shows "executeStep runVote options k st taskId =
     (case tryBody runVote options k st taskId sub of
        Inr s \<Rightarrow> Inr s
      | Inl msg \<Rightarrow>
          if stopOnError options then Inl msg
          else Inr (st\<lparr>errorCount := errorCount st + 1,
                       executionLog := executionLog st @
                         [\<lparr>log_taskId = taskId, log_status = Error,
                           log_confidence = None, log_error = Some msg\<rparr>]\<rparr>))"
  unfolding executeStep_def Let_def assms by simp

text \<open>
  Claim C4 as stated fails in the error case: the voting round of the only subtask throws,
  \<open>stopOnError\<close> is unset, the loop goes on with an error entry in the log, and the subtask is
  still pending.
\<close>

theorem error_subtask_not_completed_counterexample:
  "executeStep failingVote lenientOptions 2 (initialState [pendingTask 1 []]) 1
     = Inr \<lparr>cur_subtasks = [pendingTask 1 []],
            executionLog = [\<lparr>log_taskId = 1, log_status = Error, log_confidence = None,
                             log_error = Some ''Failed to generate any candidates''\<rparr>],
            results = [], completedCount = 0, errorCount = 1\<rparr>
   \<and> status (pendingTask 1 []) = Pending"
  by (simp add: executeStep_def tryBody_def failingVote_def lenientOptions_def initialState_def
        pendingTask_def)

text \<open>
  Claim C4, amended.  An iteration of the loop of \<open>executeTask\<close> that finds its subtask and
  does not abort appends one entry to the execution log.  When the entry is a success or a
  warning, the subtask has been marked completed before the loop moves on.  When the entry is
  an error (an exception was caught and \<open>stopOnError\<close> is unset), the subtasks of the plan are
  left as they were.
\<close>

theorem executeStep_marks_completed:
  assumes found: "find (\<lambda>t. task_id t = taskId) (cur_subtasks st) = Some sub"
    and step: "executeStep runVote options k st taskId = Inr st'"
  shows "\<exists>entry. executionLog st' = executionLog st @ [entry] \<and> log_taskId entry = taskId
           \<and> (log_status entry \<noteq> Error \<longrightarrow>
                cur_subtasks st' = completeSubtask (cur_subtasks st) taskId
                \<and> (\<forall>t \<in> set (cur_subtasks st'). task_id t = taskId \<longrightarrow> status t = Completed))
           \<and> (log_status entry = Error \<longrightarrow> cur_subtasks st' = cur_subtasks st)"
proof (cases "tryBody runVote options k st taskId sub")
  case (Inr st'')
  from step have "st'' = st'"
    unfolding executeStep_found [OF found] Inr by simp
  with Inr have "tryBody runVote options k st taskId sub = Inr st'" by simp
  from tryBody_Inr [OF this] obtain entry where
    e: "executionLog st' = executionLog st @ [entry]" "log_taskId entry = taskId"
       "log_status entry \<noteq> Error" "cur_subtasks st' = completeSubtask (cur_subtasks st) taskId"
    by blast
  have "\<forall>t \<in> set (cur_subtasks st'). task_id t = taskId \<longrightarrow> status t = Completed"
    unfolding e(4) using completeSubtask_marks by blast
  with e show ?thesis by blast
next
  case (Inl msg)
  define entry where "entry = \<lparr>log_taskId = taskId, log_status = Error,
                                 log_confidence = None, log_error = Some msg\<rparr>"
  from step have "st' = st\<lparr>errorCount := errorCount st + 1,
                            executionLog := executionLog st @ [entry]\<rparr>"
    unfolding executeStep_found [OF found] Inl entry_def by (simp split: if_splits)
  then have "executionLog st' = executionLog st @ [entry]" "cur_subtasks st' = cur_subtasks st"
    by simp_all
  moreover have "log_taskId entry = taskId" "log_status entry = Error"
    by (simp_all add: entry_def)
  ultimately show ?thesis by blast
qed

theorem executeStep_marks_completed_witness:
  "executeStep unreliableVote lenientOptions 2 (initialState [pendingTask 1 []]) 1 = Inr warnedState
   \<and> (\<exists>entry. executionLog warnedState = executionLog (initialState [pendingTask 1 []]) @ [entry]
         \<and> log_status entry = Warning)
   \<and> cur_subtasks warnedState = completeSubtask (cur_subtasks (initialState [pendingTask 1 []])) 1
   \<and> map status (cur_subtasks warnedState) = [Completed]"
proof -
  have found: "find (\<lambda>t. task_id t = 1) (cur_subtasks (initialState [pendingTask 1 []]))
                 = Some (pendingTask 1 [])"
    by (simp add: initialState_def pendingTask_def)
  have step: "executeStep unreliableVote lenientOptions 2 (initialState [pendingTask 1 []]) 1
                = Inr warnedState"
    by (simp add: executeStep_def tryBody_def unreliableVote_def unreliableResult_def
          lenientOptions_def initialState_def warnedState_def completeSubtask_def pendingTask_def)
  from executeStep_marks_completed [OF found step] obtain entry where
    e: "executionLog warnedState = executionLog (initialState [pendingTask 1 []]) @ [entry]"
       "log_status entry \<noteq> Error \<longrightarrow>
          cur_subtasks warnedState = completeSubtask (cur_subtasks (initialState [pendingTask 1 []])) 1"
    by blast
  from e(1) have "entry = \<lparr>log_taskId = 1, log_status = Warning, log_confidence = Some 0.5,
                           log_error = None\<rparr>"
    by (simp add: warnedState_def initialState_def)
  then have w: "log_status entry = Warning"
    by simp
  with e(2) have c: "cur_subtasks warnedState
                       = completeSubtask (cur_subtasks (initialState [pendingTask 1 []])) 1"
    by simp
  have m: "map status (cur_subtasks warnedState) = [Completed]"
    by (simp add: warnedState_def)
  from step e(1) w c m show ?thesis by blast
qed

section \<open>Normalization of the subtasks\<close>

lemma map_int_Suc_upt: "map (\<lambda>i. int i + 1) [0..<n] = [1..int n]"
proof (induction n)
  case 0
  show ?case by simp
next
  case (Suc n)
  have "[1..int (Suc n)] = [1..int n] @ [int n + 1]"
    using upto_rec2 [of 1 "int n + 1"] by (simp add: add.commute)
  with Suc show ?case by simp
qed

lemma validateSubtasks_ids:
  "map task_id (validateSubtasks xs) = [1..int (length xs)]"
proof -
  have "map task_id (validateSubtasks xs) = map (\<lambda>p. int (fst p) + 1) (enumerate 0 xs)"
    by (simp add: validateSubtasks_def case_prod_beta comp_def)
  also have "\<dots> = map (\<lambda>i. int i + 1) (map fst (enumerate 0 xs))"
    by (simp only: map_map comp_def)
  also have "\<dots> = map (\<lambda>i. int i + 1) [0..<length xs]"
    by (simp only: map_fst_enumerate) simp
  finally show ?thesis by (simp only: map_int_Suc_upt)
qed

lemma remapDepends_range:
  "d \<in> set (remapDepends xs ds) \<Longrightarrow> 1 \<le> d \<and> d \<le> int (length xs)"
  by (auto simp: remapDepends_def)

lemma validateSubtasks_depends:
  assumes "t \<in> set (validateSubtasks xs)"
  shows "\<exists>t0 \<in> set xs. depends t = remapDepends xs (depends t0)"
proof -
  from assms obtain i t0 where "(i, t0) \<in> set (enumerate 0 xs)"
    and t: "t = t0\<lparr>task_id := int i + 1, depends := remapDepends xs (depends t0)\<rparr>"
    unfolding validateSubtasks_def by auto
  then have "t0 \<in> set xs" by (auto simp: in_set_enumerate_eq)
  with t show ?thesis by auto
qed

text \<open>
  Claim C5 as stated fails: the first subtask depends on itself and on the second one, and
  normalization keeps both entries, an id that is not prior and a self-reference.
\<close>

theorem validateSubtasks_forward_counterexample:
  "map task_id (validateSubtasks forwardDependsInput) = [1, 2]
   \<and> map depends (validateSubtasks forwardDependsInput) = [[1, 2], []]"
  by (simp add: validateSubtasks_def forwardDependsInput_def remapDepends_def pendingTask_def
        enumerate_eq_zip upt_rec)

text \<open>
  Claim C5, amended.  After \<open>_validateSubtasks\<close> the ids are exactly 1 to N in output order,
  and every id that remains in a \<open>depends\<close> list lies between 1 and N, so it is the id of a
  subtask of the output (not necessarily of a prior one); the other entries are dropped.
\<close>

theorem validateSubtasks_normalized:
  "length (validateSubtasks xs) = length xs
   \<and> map task_id (validateSubtasks xs) = [1..int (length xs)]
   \<and> (\<forall>t \<in> set (validateSubtasks xs). \<forall>d \<in> set (depends t).
         1 \<le> d \<and> d \<le> int (length xs) \<and> d \<in> set (map task_id (validateSubtasks xs)))"
proof -
  have len: "length (validateSubtasks xs) = length xs"
    by (simp add: validateSubtasks_def)
  have ids: "map task_id (validateSubtasks xs) = [1..int (length xs)]"
    by (rule validateSubtasks_ids)
  have "1 \<le> d \<and> d \<le> int (length xs) \<and> d \<in> set (map task_id (validateSubtasks xs))"
    if "t \<in> set (validateSubtasks xs)" "d \<in> set (depends t)" for t d
  proof -
    from validateSubtasks_depends [OF that(1)] obtain t0 :: subtask where
      "depends t = remapDepends xs (depends t0)" by blast
    with that(2) have "1 \<le> d \<and> d \<le> int (length xs)"
      by (simp add: remapDepends_range)
    then show ?thesis unfolding ids by simp
  qed
  with len ids show ?thesis by blast
qed

theorem validateSubtasks_normalized_witness:
  "map task_id (validateSubtasks gappedInput) = [1, 2]
   \<and> map depends (validateSubtasks gappedInput) = [[], [1, 2, 2]]"
proof -
  have ev: "map task_id (validateSubtasks gappedInput) = [1, 2]
            \<and> map depends (validateSubtasks gappedInput) = [[], [1, 2, 2]]"
    by (simp add: validateSubtasks_def gappedInput_def remapDepends_def pendingTask_def
          enumerate_eq_zip upt_rec)
  from validateSubtasks_normalized [of gappedInput] ev show ?thesis by blast
qed

section \<open>A voting round without a valid candidate\<close>

lemma hd_sort_key_least:
  assumes "xs \<noteq> []"
  shows "hd (sort_key f xs) \<in> set xs \<and> (\<forall>x \<in> set xs. f (hd (sort_key f xs)) \<le> f x)"
proof -
  from assms have "sort_key f xs \<noteq> []"
    by (metis length_sort length_0_conv)
  then obtain y ys where ys: "sort_key f xs = y # ys"
    by (cases "sort_key f xs") auto
  have "sorted (map f (sort_key f xs))" by (rule sorted_sort_key)
  with ys have le: "\<forall>z \<in> set ys. f y \<le> f z" by simp
  have "set (y # ys) = set xs" using ys set_sort [of f xs] by simp
  with le ys show ?thesis by auto
qed

lemma generateCandidates_apologising:
  "generateCandidates apologisingProvider 4 =
     [\<lparr>cand_index = 0, content = ''I am sorry, I cannot help with that''\<rparr>,
      \<lparr>cand_index = 2, content = ''As an AI I do not understand''\<rparr>]"
  by (simp add: generateCandidates_def apologisingProvider_def upt_rec)

text \<open>
  Claim C6.  When \<open>vote\<close> generated at least one candidate and the validator accepts none,
  it returns as winner the content of a candidate whose validator confidence is highest among
  all generated candidates, with confidence 0.3, \<open>reliable = false\<close>, \<open>validCandidates = 0\<close>
  and a non-empty warning.
\<close>

theorem vote_all_invalid:
  assumes some: "generateCandidates provider (effectiveMaxCandidates options) \<noteq> []"
    and invalid: "\<forall>c \<in> set (generateCandidates provider (effectiveMaxCandidates options)).
                    \<not> valid (validate (content c))"
  shows "\<exists>r best. vote provider validate extractFeatures compareFeaturesEnhanced options = Inr r
           \<and> best \<in> set (generateCandidates provider (effectiveMaxCandidates options))
           \<and> (\<forall>c \<in> set (generateCandidates provider (effectiveMaxCandidates options)).
                 v_confidence (validate (content c)) \<le> v_confidence (validate (content best)))
           \<and> winner r = content best
           \<and> confidence r = 0.3
           \<and> reliable (votingStats r) = False
           \<and> validCandidates (votingStats r) = 0
           \<and> (\<exists>w. warning r = Some w \<and> w \<noteq> [])"
proof -
  define cands where "cands = generateCandidates provider (effectiveMaxCandidates options)"
  define best where "best = hd (sort_key (\<lambda>c. - v_confidence (validate (content c))) cands)"
  from some have ne: "cands \<noteq> []" by (simp add: cands_def)
  from invalid have none: "redFlag validate cands = []"
    by (auto simp: redFlag_def cands_def filter_empty_conv)
  from hd_sort_key_least [OF ne, of "\<lambda>c. - v_confidence (validate (content c))"]
  have b: "best \<in> set cands"
    "\<forall>c \<in> set cands. v_confidence (validate (content c)) \<le> v_confidence (validate (content best))"
    by (simp_all add: best_def)
  obtain r where r: "vote provider validate extractFeatures compareFeaturesEnhanced options = Inr r"
    and rw: "winner r = content best" "confidence r = 0.3" "reliable (votingStats r) = False"
      "validCandidates (votingStats r) = 0"
      "warning r = Some ''All candidates failed validation - returning least bad option''"
    using ne none by (simp add: vote_def Let_def cands_def [symmetric] best_def)
  from rw(5) have "\<exists>w. warning r = Some w \<and> w \<noteq> []" by simp
  with r rw b show ?thesis unfolding cands_def by blast
qed

theorem vote_all_invalid_witness:
  "\<exists>r. vote apologisingProvider rejectingValidator (\<lambda>c. c) (\<lambda>a b. 0) threeCandidates = Inr r
       \<and> winner r = ''I am sorry, I cannot help with that''
       \<and> confidence r = 0.3
       \<and> reliable (votingStats r) = False
       \<and> validCandidates (votingStats r) = 0"
proof -
  have m: "effectiveMaxCandidates threeCandidates = 4"
    by (simp add: effectiveMaxCandidates_def threeCandidates_def)
  have k: "effectiveK threeCandidates = 2"
    by (simp add: effectiveK_def threeCandidates_def)
  have some: "generateCandidates apologisingProvider (effectiveMaxCandidates threeCandidates) \<noteq> []"
    by (simp add: m generateCandidates_apologising)
  have invalid: "\<forall>c \<in> set (generateCandidates apologisingProvider (effectiveMaxCandidates threeCandidates)).
                    \<not> valid (rejectingValidator (content c))"
    by (simp add: rejectingValidator_def)
  from vote_all_invalid [OF some invalid, of "\<lambda>c. c" "\<lambda>a b. 0"] obtain r :: votingResult where
    r: "vote apologisingProvider rejectingValidator (\<lambda>c. c) (\<lambda>a b. 0) threeCandidates = Inr r"
      "confidence r = 0.3" "reliable (votingStats r) = False" "validCandidates (votingStats r) = 0"
    by blast
  have "vote apologisingProvider rejectingValidator (\<lambda>c. c) (\<lambda>a b. 0) threeCandidates
          = Inr \<lparr>winner = ''I am sorry, I cannot help with that'',
                 confidence = 0.3,
                 votingStats = \<lparr>totalCandidates = 2, validCandidates = 0, clusterCount = 0,
                                 winnerVotes = None, runnerUpVotes = None, margin = None,
                                 votesNeeded = 2, reliable = False\<rparr>,
                 clusters = [],
                 warning = Some ''All candidates failed validation - returning least bad option'',
                 result_reliable = None\<rparr>"
    by (simp add: vote_def Let_def m k generateCandidates_apologising redFlag_def
          rejectingValidator_def)
  with r(1) have "Inr r = (Inr \<lparr>winner = ''I am sorry, I cannot help with that'',
                 confidence = 0.3,
                 votingStats = \<lparr>totalCandidates = 2, validCandidates = 0, clusterCount = 0,
                                 winnerVotes = None, runnerUpVotes = None, margin = None,
                                 votesNeeded = 2, reliable = False\<rparr>,
                 clusters = [],
                 warning = Some ''All candidates failed validation - returning least bad option'',
                 result_reliable = None\<rparr> :: string + votingResult)"
    by (rule trans [OF sym])
  then have "winner r = ''I am sorry, I cannot help with that''"
    by (simp only: sum.inject votingResult.simps)
  with r show ?thesis by blast
qed

section \<open>The clusters partition the responses\<close>

lemma fold_absorb:
  assumes "fold (absorb codes row t) is (cl, A) = (cl', A')"
  shows "\<exists>new. members cl' = members cl @ new \<and> csize cl' = csize cl + length new
           \<and> distinct (map index new) \<and> set (map index new) \<inter> A = {}
           \<and> A' = A \<union> set (map index new) \<and> set (map index new) \<subseteq> set is
           \<and> representative cl' = representative cl"
  using assms
proof (induction "is" arbitrary: cl A)
  case Nil
  then show ?case by simp
next
  case (Cons i "is")
  show ?case
  proof (cases "i \<notin> A \<and> t \<le> row ! i")
    case False
    then have "absorb codes row t i (cl, A) = (cl, A)"
      by (auto simp: absorb_def Let_def)
    with Cons.prems have "fold (absorb codes row t) is (cl, A) = (cl', A')" by simp
    from Cons.IH [OF this] show ?thesis by auto
  next
    case True
    define m where "m = \<lparr>code = codes ! i, index = i, similarity = row ! i\<rparr>"
    define cl1 where "cl1 = cl\<lparr>members := members cl @ [m], csize := csize cl + 1\<rparr>"
    from True have "absorb codes row t i (cl, A) = (cl1, insert i A)"
      by (simp add: absorb_def Let_def cl1_def m_def)
    with Cons.prems have "fold (absorb codes row t) is (cl1, insert i A) = (cl', A')" by simp
    from Cons.IH [OF this] obtain new where
      n: "members cl' = members cl1 @ new" "csize cl' = csize cl1 + length new"
         "distinct (map index new)" "set (map index new) \<inter> insert i A = {}"
         "A' = insert i A \<union> set (map index new)" "set (map index new) \<subseteq> set is"
         "representative cl' = representative cl1"
      by blast
    have mi: "index m = i" by (simp add: m_def)
    have "members cl' = members cl @ (m # new)" using n(1) by (simp add: cl1_def)
    moreover have "csize cl' = csize cl + length (m # new)" using n(2) by (simp add: cl1_def)
    moreover have "distinct (map index (m # new))" using n(3,4) mi by auto
    moreover have "set (map index (m # new)) \<inter> A = {}" using n(4) True mi by auto
    moreover have "A' = A \<union> set (map index (m # new))" using n(5) mi by auto
    moreover have "set (map index (m # new)) \<subseteq> set (i # is)" using n(6) mi by auto
    moreover have "representative cl' = representative cl" using n(7) by (simp add: cl1_def)
    ultimately show ?thesis by blast
  qed
qed


lemma startCluster_inv:
  assumes inv: "partitionInv (length codes) (cls, A)" and c: "candidate < length codes"
    and step: "startCluster codes matrix t candidate (cls, A) = (cls', A')"
  shows "partitionInv (length codes) (cls', A') \<and> insert candidate A \<subseteq> A'"
proof (cases "candidate \<in> A")
  case True
  with step have "cls' = cls" "A' = A" by (simp_all add: startCluster_def)
  with inv True show ?thesis by auto
next
  case False
  define m0 where "m0 = \<lparr>code = codes ! candidate, index = candidate, similarity = 1\<rparr>"
  define cl0 where "cl0 = \<lparr>representative = codes ! candidate, members = [m0], csize = 1,
                             avgSimilarity = 0\<rparr>"
  obtain cl1 A1 where f: "fold (absorb codes (matrix ! candidate) t) [0..<length codes]
                            (cl0, insert candidate A) = (cl1, A1)"
    by (cases "fold (absorb codes (matrix ! candidate) t) [0..<length codes] (cl0, insert candidate A)")
  define cl2 where
    "cl2 = cl1\<lparr>avgSimilarity := sum_list (map similarity (members cl1)) / real (csize cl1)\<rparr>"
  from False step f have res: "cls' = cls @ [cl2]" "A' = A1"
    by (simp_all add: startCluster_def Let_def cl0_def m0_def cl2_def)
  from fold_absorb [OF f] obtain new where
    n: "members cl1 = members cl0 @ new" "csize cl1 = csize cl0 + length new"
       "distinct (map index new)" "set (map index new) \<inter> insert candidate A = {}"
       "A1 = insert candidate A \<union> set (map index new)" "set (map index new) \<subseteq> set [0..<length codes]"
    by blast
  have mem2: "members cl2 = m0 # new" using n(1) by (simp add: cl2_def cl0_def)
  have size2: "csize cl2 = length (members cl2)" using n(2) mem2 by (simp add: cl2_def cl0_def)
  have idx2: "map index (members cl2) = candidate # map index new"
    using mem2 by (simp add: m0_def)
  from inv have i: "distinct (memberIndices cls)" "set (memberIndices cls) = A" "A \<subseteq> {0..<length codes}"
    "map csize cls = map (\<lambda>c. length (members c)) cls" "list_all (\<lambda>c. members c \<noteq> []) cls"
    by (simp_all add: partitionInv_def)
  have mi: "memberIndices cls' = memberIndices cls @ candidate # map index new"
    using idx2 by (simp add: memberIndices_def res)
  have d: "distinct (memberIndices cls')"
    unfolding mi using i(1,2) n(3,4) False by auto
  have s: "set (memberIndices cls') = A'"
    unfolding mi using i(2) n(5) res(2) by auto
  have b: "A' \<subseteq> {0..<length codes}"
    using i(3) n(5,6) c res(2) by auto
  have z: "map csize cls' = map (\<lambda>c. length (members c)) cls'"
    using i(4) size2 by (simp add: res)
  have ne: "list_all (\<lambda>c. members c \<noteq> []) cls'"
    using i(5) mem2 by (simp add: res)
  have "insert candidate A \<subseteq> A'" using n(5) res(2) by auto
  with d s b z ne show ?thesis by (simp add: partitionInv_def)
qed

lemma fold_startCluster_inv:
  assumes "partitionInv (length codes) (cls, A)" and "set cands \<subseteq> {0..<length codes}"
    and "fold (startCluster codes matrix t) cands (cls, A) = (cls', A')"
  shows "partitionInv (length codes) (cls', A') \<and> A \<union> set cands \<subseteq> A'"
  using assms
proof (induction cands arbitrary: cls A)
  case Nil
  then show ?case by simp
next
  case (Cons c cands)
  obtain cls1 A1 where s: "startCluster codes matrix t c (cls, A) = (cls1, A1)"
    by (cases "startCluster codes matrix t c (cls, A)")
  from Cons.prems(2) have c: "c < length codes" and rest: "set cands \<subseteq> {0..<length codes}"
    by auto
  from startCluster_inv [OF Cons.prems(1) c s]
  have i1: "partitionInv (length codes) (cls1, A1)" and sub: "insert c A \<subseteq> A1" by auto
  from Cons.prems(3) s have "fold (startCluster codes matrix t) cands (cls1, A1) = (cls', A')"
    by simp
  from Cons.IH [OF i1 rest this] sub show ?case by auto
qed

lemma sum_list_map_sort_key:
  fixes f :: "'a \<Rightarrow> nat"
  shows "sum_list (map f (sort_key k xs)) = sum_list (map f xs)"
proof -
  have "mset (map f (sort_key k xs)) = mset (map f xs)" by simp
  then show ?thesis by (metis sum_mset_sum_list)
qed

lemma mset_memberIndices_sort_key:
  "mset (memberIndices (sort_key k cls)) = mset (memberIndices cls)"
proof -
  have "mset (map (\<lambda>c. mset (map index (members c))) (sort_key k cls))
          = mset (map (\<lambda>c. mset (map index (members c))) cls)"
    by simp
  then have "sum_list (map (\<lambda>c. mset (map index (members c))) (sort_key k cls))
          = sum_list (map (\<lambda>c. mset (map index (members c))) cls)"
    by (metis sum_mset_sum_list)
  then show ?thesis
    by (simp add: memberIndices_def mset_concat comp_def)
qed

lemma greedyCluster_partition:
  assumes "cls = greedyCluster codes matrix t"
  shows "sum_list (map csize cls) = length codes \<and> distinct (memberIndices cls)
         \<and> set (memberIndices cls) = {0..<length codes}
         \<and> list_all (\<lambda>c. csize c = length (members c) \<and> members c \<noteq> []) cls"
proof -
  define n where "n = length codes"
  define cands where "cands = sort_key (\<lambda>i. - (sum_list (matrix ! i) / real n)) [0..<n]"
  obtain cls0 A0 where f: "fold (startCluster codes matrix t) cands ([], {}) = (cls0, A0)"
    by (cases "fold (startCluster codes matrix t) cands ([], {})")
  have res: "cls = sort_key (\<lambda>c. - int (csize c)) cls0"
    using assms f by (simp add: greedyCluster_def Let_def n_def cands_def)
  have sc: "set cands = {0..<n}" by (simp add: cands_def)
  have inv0: "partitionInv (length codes) ([], {})"
    by (simp add: partitionInv_def memberIndices_def)
  from fold_startCluster_inv [OF inv0 _ f] sc
  have inv: "partitionInv (length codes) (cls0, A0)" and sup: "{0..<n} \<subseteq> A0"
    by (auto simp: n_def)
  from inv have i: "distinct (memberIndices cls0)" "set (memberIndices cls0) = A0" "A0 \<subseteq> {0..<n}"
    "map csize cls0 = map (\<lambda>c. length (members c)) cls0" "list_all (\<lambda>c. members c \<noteq> []) cls0"
    by (simp_all add: partitionInv_def n_def)
  from i(2,3) sup have set0: "set (memberIndices cls0) = {0..<n}" by auto
  with i(1) have "length (memberIndices cls0) = n"
    by (metis distinct_card card_atLeastLessThan diff_zero)
  moreover have "length (memberIndices cls0) = sum_list (map (\<lambda>c. length (members c)) cls0)"
    by (simp add: memberIndices_def length_concat comp_def)
  ultimately have sum0: "sum_list (map csize cls0) = n" unfolding i(4) by simp
  have m: "mset (memberIndices cls) = mset (memberIndices cls0)"
    unfolding res by (rule mset_memberIndices_sort_key)
  have a: "sum_list (map csize cls) = length codes"
    unfolding res sum_list_map_sort_key using sum0 by (simp add: n_def)
  have b: "distinct (memberIndices cls)"
    using m i(1) by (metis mset_eq_imp_distinct_iff)
  have c: "set (memberIndices cls) = {0..<length codes}"
    using m set0 by (metis mset_eq_setD n_def)
  from i(4) have "list_all (\<lambda>c. csize c = length (members c)) cls0"
    by (induction cls0) auto
  with i(5) have "list_all (\<lambda>c. csize c = length (members c) \<and> members c \<noteq> []) cls0"
    by (simp add: list_all_iff)
  then have d: "list_all (\<lambda>c. csize c = length (members c) \<and> members c \<noteq> []) cls"
    unfolding res by (simp add: list_all_iff)
  from a b c d show ?thesis by blast
qed

lemma cluster_partition_aux:
  "sum_list (map csize (cluster extractFeatures compareFeaturesEnhanced responses t))
     = length responses
   \<and> distinct (memberIndices (cluster extractFeatures compareFeaturesEnhanced responses t))
   \<and> set (memberIndices (cluster extractFeatures compareFeaturesEnhanced responses t))
     = {0..<length responses}
   \<and> list_all (\<lambda>c. csize c = length (members c))
        (cluster extractFeatures compareFeaturesEnhanced responses t)"
proof -
  consider "length responses = 0" | "length responses = 1" | "2 \<le> length responses"
    by linarith
  then show ?thesis
  proof cases
    case 1
    then show ?thesis by (simp add: cluster_def memberIndices_def)
  next
    case 2
    then show ?thesis by (simp add: cluster_def memberIndices_def)
  next
    case 3
    define cls where "cls = greedyCluster responses
        (buildSimilarityMatrix compareFeaturesEnhanced (map extractFeatures responses)) t"
    from 3 have "length responses \<noteq> 0" "length responses \<noteq> 1" by auto
    then have eq: "cluster extractFeatures compareFeaturesEnhanced responses t = cls"
      by (simp add: cluster_def Let_def cls_def)
    from greedyCluster_partition [OF cls_def]
    have "sum_list (map csize cls) = length responses" "distinct (memberIndices cls)"
      "set (memberIndices cls) = {0..<length responses}"
      "list_all (\<lambda>c. csize c = length (members c) \<and> members c \<noteq> []) cls"
      by blast+
    then show ?thesis unfolding eq by (simp add: list_all_iff)
  qed
qed

text \<open>
  Claim C2.  For every list of responses and every threshold, the sizes of the clusters that
  \<open>cluster\<close> returns add up to the number of responses, no response index occurs twice among
  the members of the clusters, every index occurs, and the size of a cluster is the number of its
  members.
\<close>

theorem cluster_partition:
  "sum_list (map csize (cluster extractFeatures compareFeaturesEnhanced responses t))
     = length responses
   \<and> distinct (memberIndices (cluster extractFeatures compareFeaturesEnhanced responses t))
   \<and> set (memberIndices (cluster extractFeatures compareFeaturesEnhanced responses t))
     = {0..<length responses}
   \<and> list_all (\<lambda>c. csize c = length (members c))
        (cluster extractFeatures compareFeaturesEnhanced responses t)"
  by (rule cluster_partition_aux)

section \<open>The winner of a voting round\<close>

lemma castVotes_votes: "map votes (castVotes cls) = rev (sort (map csize cls))"
proof -
  define es where "es = map (\<lambda>(i, c). \<lparr>clusterIndex = i, vote_cluster = c, votes = csize c,
                        vote_representative = representative c\<rparr>) (enumerate 0 cls)"
  have cv: "castVotes cls = sort_key (\<lambda>v. - int (votes v)) es"
    by (simp add: castVotes_def es_def)
  have "map votes es = map (\<lambda>p. csize (snd p)) (enumerate 0 cls)"
    by (simp add: es_def case_prod_beta comp_def)
  also have "\<dots> = map csize (map snd (enumerate 0 cls))"
    by (simp only: map_map comp_def)
  finally have ves: "map votes es = map csize cls" by simp
  have "sorted (map (\<lambda>v. - int (votes v)) (castVotes cls))"
    unfolding cv by (rule sorted_sort_key)
  then have srt: "sorted (rev (map votes (castVotes cls)))"
    by (simp add: sorted_wrt_rev sorted_wrt_map)
  have "mset (rev (map votes (castVotes cls))) = mset (map csize cls)"
    unfolding cv using ves by (metis mset_rev mset_map mset_sort)
  from properties_for_sort [OF this srt] have "sort (map csize cls) = rev (map votes (castVotes cls))" .
  then show ?thesis by simp
qed

lemma castVotes_entries:
  assumes "v \<in> set (castVotes cls)"
  shows "vote_cluster v \<in> set cls \<and> votes v = csize (vote_cluster v)
         \<and> vote_representative v = representative (vote_cluster v)"
proof -
  from assms obtain i c where "(i, c) \<in> set (enumerate 0 cls)"
    and v: "v = \<lparr>clusterIndex = i, vote_cluster = c, votes = csize c,
                 vote_representative = representative c\<rparr>"
    unfolding castVotes_def by auto
  then have "c \<in> set cls" by (auto simp: in_set_enumerate_eq)
  with v show ?thesis by simp
qed

lemma sorted_rev_hd_greatest:
  fixes ys :: "nat list"
  assumes "y # ys = rev (sort xs)" "x \<in> set xs"
  shows "x \<le> y"
proof -
  have "sorted (sort xs)" by simp
  then have "sorted (rev (y # ys))" using assms(1) by simp
  then have "\<forall>z \<in> set ys. z \<le> y" by (simp add: sorted_append)
  moreover have "set (y # ys) = set xs" using assms(1) by (metis set_rev set_sort)
  ultimately show ?thesis using assms(2) by auto
qed

text \<open>
  Claim C1.  When at least two candidates pass validation, \<open>vote\<close> returns the representative
  of a cluster with the most votes (the votes of a cluster are its size), and \<open>reliable\<close> is true
  exactly when the margin, the votes of the winner minus those of the runner-up, is at least
  the threshold \<open>k\<close> that \<open>vote\<close> works with.
\<close>

theorem vote_winner_reliable:
  assumes two: "2 \<le> length (validContents provider validate options)"
  shows "\<exists>r c. vote provider validate extractFeatures compareFeaturesEnhanced options = Inr r
           \<and> c \<in> set (cluster extractFeatures compareFeaturesEnhanced
                          (validContents provider validate options) similarityThreshold)
           \<and> (\<forall>c' \<in> set (cluster extractFeatures compareFeaturesEnhanced
                          (validContents provider validate options) similarityThreshold).
                 csize c' \<le> csize c)
           \<and> winner r = representative c
           \<and> winnerVotes (votingStats r) = Some (csize c)
           \<and> runnerUpVotes (votingStats r)
               = Some (runnerUpSize (cluster extractFeatures compareFeaturesEnhanced
                          (validContents provider validate options) similarityThreshold))
           \<and> margin (votingStats r)
               = Some (int (csize c)
                       - int (runnerUpSize (cluster extractFeatures compareFeaturesEnhanced
                          (validContents provider validate options) similarityThreshold)))
           \<and> votesNeeded (votingStats r) = effectiveK options
           \<and> reliable (votingStats r)
               = (effectiveK options
                    \<le> int (csize c)
                      - int (runnerUpSize (cluster extractFeatures compareFeaturesEnhanced
                          (validContents provider validate options) similarityThreshold)))"
proof -
  define cands where "cands = generateCandidates provider (effectiveMaxCandidates options)"
  define vcs where "vcs = redFlag validate cands"
  define cls where "cls = cluster extractFeatures compareFeaturesEnhanced
                            (validContents provider validate options) similarityThreshold"
  have vc: "validContents provider validate options = map (\<lambda>(c, v). content c) vcs"
    by (simp add: validContents_def vcs_def cands_def)
  from two have len: "2 \<le> length vcs" by (simp add: vc)
  have "length vcs \<le> length cands" by (simp add: vcs_def redFlag_def)
  with len have c0: "length cands \<noteq> 0" and v0: "length vcs \<noteq> 0" and v1: "length vcs \<noteq> 1"
    by auto
  have "sum_list (map csize cls) = length (validContents provider validate options)"
    unfolding cls_def using cluster_partition_aux by blast
  with two have "cls \<noteq> []" by auto
  moreover have "length (castVotes cls) = length cls"
    by (simp add: castVotes_def)
  ultimately obtain w rest where wr: "castVotes cls = w # rest"
    by (cases "castVotes cls") auto
  define ru where "ru = (case rest of [] \<Rightarrow> 0 | runnerUp # _ \<Rightarrow> votes runnerUp)"
  define r where "r = \<lparr>winner = vote_representative w,
        confidence = calculateConfidence w ru (effectiveK options) (length vcs),
        votingStats = \<lparr>totalCandidates = length cands,
                        validCandidates = length vcs,
                        clusterCount = length cls,
                        winnerVotes = Some (votes w),
                        runnerUpVotes = Some ru,
                        margin = Some (int (votes w) - int ru),
                        votesNeeded = effectiveK options,
                        reliable = (effectiveK options \<le> int (votes w) - int ru)\<rparr>,
        clusters = cls,
        warning = (if effectiveK options \<le> int (votes w) - int ru then None
                   else Some ''Margin below threshold - result may be unreliable''),
        result_reliable = None\<rparr>"
  have res: "vote provider validate extractFeatures compareFeaturesEnhanced options = Inr r"
    using c0 v0 v1 wr
    by (simp add: vote_def Let_def cands_def [symmetric] vcs_def [symmetric]
          vc [symmetric] cls_def [symmetric] r_def ru_def)
  have sizes: "map votes (w # rest) = rev (sort (map csize cls))"
    using castVotes_votes [of cls] wr by simp
  have ru_eq: "ru = runnerUpSize cls"
    unfolding ru_def runnerUpSize_def sizes [symmetric]
    by (cases rest) simp_all
  have "w \<in> set (castVotes cls)" using wr by simp
  from castVotes_entries [OF this]
  have w: "vote_cluster w \<in> set cls" "votes w = csize (vote_cluster w)"
    "vote_representative w = representative (vote_cluster w)"
    by simp_all
  have top: "\<forall>c' \<in> set cls. csize c' \<le> csize (vote_cluster w)"
  proof
    fix c' assume "c' \<in> set cls"
    then have "csize c' \<in> set (map csize cls)" by simp
    with sorted_rev_hd_greatest [of "votes w" "map votes rest" "map csize cls" "csize c'"] sizes
    show "csize c' \<le> csize (vote_cluster w)" using w(2) by simp
  qed
  have "winner r = representative (vote_cluster w)" using w(3) by (simp add: r_def)
  moreover have "winnerVotes (votingStats r) = Some (csize (vote_cluster w))"
    using w(2) by (simp add: r_def)
  moreover have "runnerUpVotes (votingStats r) = Some (runnerUpSize cls)"
    using ru_eq by (simp add: r_def)
  moreover have "margin (votingStats r) = Some (int (csize (vote_cluster w)) - int (runnerUpSize cls))"
    using ru_eq w(2) by (simp add: r_def)
  moreover have "votesNeeded (votingStats r) = effectiveK options" by (simp add: r_def)
  moreover have "reliable (votingStats r)
                   = (effectiveK options \<le> int (csize (vote_cluster w)) - int (runnerUpSize cls))"
    using ru_eq w(2) by (simp add: r_def)
  ultimately show ?thesis
    using res w(1) top unfolding cls_def by blast
qed

lemma validContents_agreeing:
  "validContents agreeingProvider acceptingValidator fiveCandidates
     = [''const x = 1;'', ''const x = 1;'', ''const x = 1;'', ''let y = 2;'']"
  by code_simp

lemma cluster_agreeing:
  "cluster (\<lambda>c. c) sameText [''const x = 1;'', ''const x = 1;'', ''const x = 1;'', ''let y = 2;'']
     similarityThreshold = clusters agreedResult"
  by code_simp

lemma vote_agreeing:
  "vote agreeingProvider acceptingValidator (\<lambda>c. c) sameText fiveCandidates = Inr agreedResult"
  by code_simp

theorem vote_winner_reliable_witness:
  "vote agreeingProvider acceptingValidator (\<lambda>c. c) sameText fiveCandidates = Inr agreedResult
   \<and> winner agreedResult = ''const x = 1;''
   \<and> map csize (clusters agreedResult) = [3, 1]
   \<and> margin (votingStats agreedResult) = Some 2
   \<and> votesNeeded (votingStats agreedResult) = 2
   \<and> reliable (votingStats agreedResult)
   \<and> (\<exists>c. c \<in> set (clusters agreedResult) \<and> winner agreedResult = representative c
          \<and> csize c = 3 \<and> runnerUpSize (clusters agreedResult) = 1)"
proof -
  have two: "2 \<le> length (validContents agreeingProvider acceptingValidator fiveCandidates)"
    by (simp add: validContents_agreeing)
  from vote_winner_reliable [OF two, of "\<lambda>c. c" sameText] obtain r c where
    rc: "vote agreeingProvider acceptingValidator (\<lambda>c. c) sameText fiveCandidates = Inr r"
      "c \<in> set (cluster (\<lambda>c. c) sameText
                  (validContents agreeingProvider acceptingValidator fiveCandidates)
                  similarityThreshold)"
      "winner r = representative c"
      "winnerVotes (votingStats r) = Some (csize c)"
      "runnerUpVotes (votingStats r)
         = Some (runnerUpSize (cluster (\<lambda>c. c) sameText
                  (validContents agreeingProvider acceptingValidator fiveCandidates)
                  similarityThreshold))"
    by blast
  from rc(1) have r: "r = agreedResult" by (simp add: vote_agreeing)
  have cls: "cluster (\<lambda>c. c) sameText
               (validContents agreeingProvider acceptingValidator fiveCandidates)
               similarityThreshold = clusters agreedResult"
    by (simp only: validContents_agreeing cluster_agreeing)
  have st: "winner agreedResult = ''const x = 1;''"
    "map csize (clusters agreedResult) = [3, 1]"
    "margin (votingStats agreedResult) = Some 2"
    "votesNeeded (votingStats agreedResult) = 2"
    "reliable (votingStats agreedResult)"
    "winnerVotes (votingStats agreedResult) = Some 3"
    "runnerUpVotes (votingStats agreedResult) = Some 1"
    by (simp_all add: agreedResult_def)
  from rc(2) have c: "c \<in> set (clusters agreedResult)" by (simp only: cls)
  from rc(3) have w: "winner agreedResult = representative c" by (simp only: r)
  from rc(4) st(6) have s: "csize c = 3" by (simp add: r)
  from rc(5) st(7) have u: "runnerUpSize (clusters agreedResult) = 1" by (simp add: r cls)
  from c w s u have "\<exists>c. c \<in> set (clusters agreedResult) \<and> winner agreedResult = representative c
          \<and> csize c = 3 \<and> runnerUpSize (clusters agreedResult) = 1"
    by blast
  with vote_agreeing st show ?thesis by blast
qed

section \<open>The execution order\<close>

subsection \<open>What a visit does\<close>

lemma visitPost_refl: "visitPost g st st"
  by (cases st) (simp add: visitPost_def)

lemma visitPost_trans:
  assumes "visitPost g st1 st2" "visitPost g st2 st3"
  shows "visitPost g st1 st3"
proof -
  obtain v1 o1 v2 o2 v3 o3 where s: "st1 = (v1, o1)" "st2 = (v2, o2)" "st3 = (v3, o3)"
    by (cases st1, cases st2, cases st3) auto
  from assms(1) s obtain n1 where
    a: "v1 \<subseteq> v2" "o2 = o1 @ n1" "distinct n1" "set n1 = (v2 - v1) \<inter> graphKeys g"
    by (auto simp: visitPost_def)
  from assms(2) s obtain n2 where
    b: "v2 \<subseteq> v3" "o3 = o2 @ n2" "distinct n2" "set n2 = (v3 - v2) \<inter> graphKeys g"
    by (auto simp: visitPost_def)
  have "o3 = o1 @ (n1 @ n2)" using a(2) b(2) by simp
  moreover have "distinct (n1 @ n2)" using a(3,4) b(3,4) by auto
  moreover have "set (n1 @ n2) = (v3 - v1) \<inter> graphKeys g" using a(1,4) b(1,4) by auto
  moreover have "v1 \<subseteq> v3" using a(1) b(1) by simp
  ultimately show ?thesis unfolding s visitPost_def by blast
qed

lemma forEachM_post:
  assumes step: "\<And>d st st'. d \<in> set ds \<Longrightarrow> f d st = Some st' \<Longrightarrow> visitPost g st st' \<and> d \<in> fst st'"
    and run: "forEachM f ds st = Some st'"
  shows "visitPost g st st' \<and> set ds \<subseteq> fst st'"
  using assms
proof (induction ds arbitrary: st)
  case Nil
  then show ?case by (simp add: visitPost_refl)
next
  case (Cons d ds)
  from Cons.prems(2) obtain st1 where f1: "f d st = Some st1" and r: "forEachM f ds st1 = Some st'"
    by (auto split: option.splits)
  from Cons.prems(1) [OF _ f1] have p1: "visitPost g st st1" and d1: "d \<in> fst st1" by simp_all
  have "visitPost g st1 st' \<and> set ds \<subseteq> fst st'"
    by (rule Cons.IH [OF _ r]) (rule Cons.prems(1), simp_all)
  moreover from this have "fst st1 \<subseteq> fst st'"
    by (cases st1, cases st') (simp add: visitPost_def)
  ultimately show ?case using p1 d1 visitPost_trans by auto
qed

lemma visit_post:
  "visit fuel g n st = Some st' \<Longrightarrow> visitPost g st st' \<and> n \<in> fst st'"
proof (induction fuel arbitrary: n st st')
  case 0
  then show ?case by simp
next
  case (Suc fuel)
  obtain vis ord where st: "st = (vis, ord)" by (cases st)
  show ?case
  proof (cases "n \<in> vis")
    case True
    with Suc.prems st have "st' = st" by simp
    with True st show ?thesis by (simp add: visitPost_refl)
  next
    case False
    show ?thesis
    proof (cases "map_of g n")
      case None
      with False Suc.prems st have s': "st' = (insert n vis, ord)" by simp
      from None have "n \<notin> graphKeys g"
        by (simp add: graphKeys_def map_of_eq_None_iff)
      then have "(insert n vis - vis) \<inter> graphKeys g = {}" by auto
      then show ?thesis unfolding st s' visitPost_def by auto
    next
      case (Some node)
      with False Suc.prems st obtain v1 o1 where
        loop: "forEachM (visit fuel g) (dependsOn node) (insert n vis, ord) = Some (v1, o1)"
        and s': "st' = (v1, o1 @ [n])"
        by (auto split: option.splits)
      have "visitPost g (insert n vis, ord) (v1, o1) \<and> set (dependsOn node) \<subseteq> fst (v1, o1)"
        by (rule forEachM_post [OF _ loop]) (rule Suc.IH)
      then obtain new where
        p: "insert n vis \<subseteq> v1" "o1 = ord @ new" "distinct new"
           "set new = (v1 - insert n vis) \<inter> graphKeys g"
        by (auto simp: visitPost_def)
      from Some have k: "n \<in> graphKeys g"
        by (auto simp: graphKeys_def dest: map_of_SomeD intro: rev_image_eqI)
      have "o1 @ [n] = ord @ (new @ [n])" using p(2) by simp
      moreover have "distinct (new @ [n])" using p(3,4) by auto
      moreover have "set (new @ [n]) = (v1 - vis) \<inter> graphKeys g" using p(1,4) k False by auto
      moreover have "vis \<subseteq> v1" "n \<in> v1" using p(1) by auto
      ultimately show ?thesis unfolding st s' visitPost_def by auto
    qed
  qed
qed

lemma forEachM_visit_post:
  "forEachM (visit fuel g) ds st = Some st' \<Longrightarrow> visitPost g st st' \<and> set ds \<subseteq> fst st'"
  by (rule forEachM_post) (rule visit_post)

subsection \<open>The sort returns and lists every node once\<close>

lemma finite_graphKeys: "finite (graphKeys g)"
  by (simp add: graphKeys_def)

lemma visitPost_unvisited:
  assumes "visitPost g (vis, ord) (vis', ord')"
  shows "card (graphKeys g - vis') \<le> card (graphKeys g - vis)"
proof -
  from assms have "vis \<subseteq> vis'" by (simp add: visitPost_def)
  then have "graphKeys g - vis' \<subseteq> graphKeys g - vis" by auto
  then show ?thesis by (intro card_mono) (simp_all add: finite_graphKeys)
qed

lemma forEachM_returns:
  assumes step: "\<And>d vis ord. card (graphKeys g - vis) < bound \<Longrightarrow> \<exists>st'. f d (vis, ord) = Some st'"
    and post: "\<And>d st st'. f d st = Some st' \<Longrightarrow> visitPost g st st'"
    and "card (graphKeys g - vis) < bound"
  shows "\<exists>st'. forEachM f ds (vis, ord) = Some st'"
  using assms(3)
proof (induction ds arbitrary: vis ord)
  case Nil
  show ?case by simp
next
  case (Cons d ds)
  from step [OF Cons.prems] obtain st1 where f1: "f d (vis, ord) = Some st1" by blast
  obtain v1 o1 where s1: "st1 = (v1, o1)" by (cases st1)
  from post [OF f1] have "visitPost g (vis, ord) (v1, o1)" by (simp add: s1)
  from visitPost_unvisited [OF this] Cons.prems have "card (graphKeys g - v1) < bound" by simp
  from Cons.IH [OF this] obtain st' where "forEachM f ds (v1, o1) = Some st'" by blast
  with f1 s1 show ?case by simp
qed

lemma visit_returns:
  "card (graphKeys g - vis) < fuel \<Longrightarrow> \<exists>st'. visit fuel g n (vis, ord) = Some st'"
proof (induction fuel arbitrary: n vis ord)
  case 0
  then show ?case by simp
next
  case (Suc fuel)
  show ?case
  proof (cases "n \<in> vis")
    case True
    then show ?thesis by simp
  next
    case False
    show ?thesis
    proof (cases "map_of g n")
      case None
      with False show ?thesis by simp
    next
      case (Some node)
      then have k: "n \<in> graphKeys g"
        by (auto simp: graphKeys_def dest: map_of_SomeD intro: rev_image_eqI)
      with False have "graphKeys g - insert n vis \<subset> graphKeys g - vis" by auto
      then have "card (graphKeys g - insert n vis) < card (graphKeys g - vis)"
        by (intro psubset_card_mono) (simp_all add: finite_graphKeys)
      with Suc.prems have b: "card (graphKeys g - insert n vis) < fuel" by simp
      have "\<exists>st'. forEachM (visit fuel g) (dependsOn node) (insert n vis, ord) = Some st'"
      proof (rule forEachM_returns [OF _ _ b])
        show "\<exists>st'. visit fuel g d (v, o') = Some st'" if "card (graphKeys g - v) < fuel" for d v o'
          using that by (rule Suc.IH)
        show "visitPost g st st'" if "visit fuel g d st = Some st'" for d st st'
          using visit_post [OF that] by simp
      qed
      then obtain v1 o1 where "forEachM (visit fuel g) (dependsOn node) (insert n vis, ord) = Some (v1, o1)"
        by auto
      with False Some show ?thesis by simp
    qed
  qed
qed

lemma topologicalSort_run:
  "\<exists>vis ord. forEachM (visit (Suc (length graph)) graph) (map fst graph) ({}, []) = Some (vis, ord)
      \<and> topologicalSort graph = Some ord \<and> distinct ord \<and> set ord = graphKeys graph"
proof -
  have "card (graphKeys graph - {}) \<le> length graph"
    unfolding graphKeys_def by (simp add: card_image_le [THEN le_trans] card_length)
  then have b: "card (graphKeys graph - {}) < Suc (length graph)" by simp
  have "\<exists>st'. forEachM (visit (Suc (length graph)) graph) (map fst graph) ({}, []) = Some st'"
  proof (rule forEachM_returns [OF _ _ b])
    show "\<exists>st'. visit (Suc (length graph)) graph d (v, o') = Some st'"
      if "card (graphKeys graph - v) < Suc (length graph)" for d v o'
      using that by (rule visit_returns)
    show "visitPost graph st st'" if "visit (Suc (length graph)) graph d st = Some st'" for d st st'
      using visit_post [OF that] by simp
  qed
  then obtain vis ord where
    run: "forEachM (visit (Suc (length graph)) graph) (map fst graph) ({}, []) = Some (vis, ord)"
    by auto
  from forEachM_visit_post [OF run] have "visitPost graph ({}, []) (vis, ord)"
    and all: "set (map fst graph) \<subseteq> vis" by simp_all
  then have d: "distinct ord" and s: "set ord = vis \<inter> graphKeys graph"
    by (auto simp: visitPost_def)
  from all s have "set ord = graphKeys graph" by (auto simp: graphKeys_def)
  moreover have "topologicalSort graph = Some ord" using run by (simp add: topologicalSort_def)
  ultimately show ?thesis using d run by blast
qed

text \<open>
  Claim C10.  For every dependency graph, with or without cycles, \<open>_topologicalSort\<close> returns,
  and the list it returns holds every node id of the graph exactly once.
\<close>

theorem topologicalSort_returns:
  "\<exists>order. topologicalSort graph = Some order \<and> distinct order \<and> set order = fst ` set graph"
  using topologicalSort_run [of graph] unfolding graphKeys_def by blast

theorem topologicalSort_returns_witness:
  "topologicalSort cyclicGraph = Some [2, 1]
   \<and> (\<exists>order. topologicalSort cyclicGraph = Some order \<and> distinct order \<and> set order = {1, 2})"
proof -
  have "topologicalSort cyclicGraph = Some [2, 1]" by code_simp
  moreover have "fst ` set cyclicGraph = {1, 2}" by (simp add: cyclicGraph_def)
  ultimately show ?thesis using topologicalSort_returns [of cyclicGraph] by simp
qed

subsection \<open>Dependencies come first\<close>

lemma dependenciesFirst_snoc:
  assumes "dependenciesFirst g ord"
    and "\<And>node. map_of g n = Some node \<Longrightarrow> set (dependsOn node) \<inter> graphKeys g \<subseteq> set ord"
  shows "dependenciesFirst g (ord @ [n])"
  unfolding dependenciesFirst_def
proof (intro allI impI)
  fix i node
  assume i: "i < length (ord @ [n])" and m: "map_of g ((ord @ [n]) ! i) = Some node"
  show "set (dependsOn node) \<inter> graphKeys g \<subseteq> set (take i (ord @ [n]))"
  proof (cases "i < length ord")
    case True
    with m have "map_of g (ord ! i) = Some node" by (simp add: nth_append)
    with assms(1) True have "set (dependsOn node) \<inter> graphKeys g \<subseteq> set (take i ord)"
      by (simp add: dependenciesFirst_def)
    with True show ?thesis by simp
  next
    case False
    with i have e: "i = length ord" by simp
    with m have "map_of g n = Some node" by simp
    from assms(2) [OF this] e show ?thesis by simp
  qed
qed

lemma visitPost_inProgress:
  assumes "visitPost g st st'" "set (snd st) \<subseteq> fst st"
  shows "inProgress g st' = inProgress g st \<and> set (snd st') \<subseteq> fst st'"
proof -
  obtain vis ord vis' ord' where s: "st = (vis, ord)" "st' = (vis', ord')"
    by (cases st, cases st') auto
  from assms(1) s obtain new where
    p: "vis \<subseteq> vis'" "ord' = ord @ new" "set new = (vis' - vis) \<inter> graphKeys g"
    by (auto simp: visitPost_def)
  from assms(2) s have "set ord \<subseteq> vis" by simp
  with p show ?thesis unfolding s inProgress_def by auto
qed

lemma forEachM_order:
  assumes step: "\<And>d st st'. d \<in> set ds \<Longrightarrow> f d st = Some st' \<Longrightarrow> set (snd st) \<subseteq> fst st \<Longrightarrow>
                   dependenciesFirst g (snd st) \<Longrightarrow> inProgress g st = G \<Longrightarrow>
                   dependenciesFirst g (snd st')"
    and post: "\<And>d st st'. f d st = Some st' \<Longrightarrow> visitPost g st st'"
    and run: "forEachM f ds st = Some st'"
    and "set (snd st) \<subseteq> fst st" "dependenciesFirst g (snd st)" "inProgress g st = G"
  shows "dependenciesFirst g (snd st')"
  using assms
proof (induction ds arbitrary: st)
  case Nil
  then show ?case by simp
next
  case (Cons d ds)
  from Cons.prems(3) obtain st1 where f1: "f d st = Some st1" and r: "forEachM f ds st1 = Some st'"
    by (auto split: option.splits)
  have g1: "dependenciesFirst g (snd st1)"
    by (rule Cons.prems(1) [OF _ f1 Cons.prems(4) Cons.prems(5) Cons.prems(6)]) simp
  from visitPost_inProgress [OF Cons.prems(2) [OF f1] Cons.prems(4)] Cons.prems(6)
  have i1: "inProgress g st1 = G" and o1: "set (snd st1) \<subseteq> fst st1" by simp_all
  show ?case
  proof (rule Cons.IH [OF _ _ r o1 g1 i1])
    show "dependenciesFirst g (snd s')"
      if "d' \<in> set ds" "f d' s = Some s'" "set (snd s) \<subseteq> fst s" "dependenciesFirst g (snd s)"
        "inProgress g s = G" for d' s s'
      by (rule Cons.prems(1) [OF _ that(2) that(3) that(4) that(5)]) (simp add: that(1))
    show "visitPost g s s'" if "f d' s = Some s'" for d' s s'
      using that by (rule Cons.prems(2))
  qed
qed

lemma visit_order:
  assumes acyc: "acyclic (dependencyEdges g)"
  shows "visit fuel g n st = Some st' \<Longrightarrow> set (snd st) \<subseteq> fst st \<Longrightarrow>
         dependenciesFirst g (snd st) \<Longrightarrow>
         (\<forall>x \<in> inProgress g st. (x, n) \<in> (dependencyEdges g)\<^sup>+) \<Longrightarrow>
         dependenciesFirst g (snd st')"
proof (induction fuel arbitrary: n st st')
  case 0
  then show ?case by simp
next
  case (Suc fuel)
  obtain vis ord where st: "st = (vis, ord)" by (cases st)
  show ?case
  proof (cases "n \<in> vis")
    case True
    with Suc.prems(1) st have "st' = st" by simp
    with Suc.prems(3) show ?thesis by simp
  next
    case False
    show ?thesis
    proof (cases "map_of g n")
      case None
      with False Suc.prems(1) st have "st' = (insert n vis, ord)" by simp
      with Suc.prems(3) st show ?thesis by simp
    next
      case (Some node)
      with False Suc.prems(1) st obtain v1 o1 where
        loop: "forEachM (visit fuel g) (dependsOn node) (insert n vis, ord) = Some (v1, o1)"
        and s': "st' = (v1, o1 @ [n])"
        by (auto split: option.splits)
      from Some have k: "n \<in> graphKeys g"
        by (auto simp: graphKeys_def dest: map_of_SomeD intro: rev_image_eqI)
      from Suc.prems(2) st have sub: "set ord \<subseteq> vis" by simp
      with False have nord: "n \<notin> set ord" by auto
      define G where "G = inProgress g (insert n vis, ord)"
      have G: "G = insert n (inProgress g st)"
        using k nord by (auto simp: G_def inProgress_def st)
      have edge: "(n, d) \<in> dependencyEdges g" if "d \<in> set (dependsOn node)" for d
        using that Some by (auto simp: dependencyEdges_def)
      have reach: "(x, d) \<in> (dependencyEdges g)\<^sup>+" if "x \<in> G" "d \<in> set (dependsOn node)" for x d
      proof (cases "x = n")
        case True
        with edge [OF that(2)] show ?thesis by auto
      next
        case False
        with that(1) G have "x \<in> inProgress g st" by simp
        with Suc.prems(4) have "(x, n) \<in> (dependencyEdges g)\<^sup>+" by blast
        then show ?thesis using edge [OF that(2)] by (rule trancl_into_trancl)
      qed
      have post: "visitPost g (insert n vis, ord) (v1, o1) \<and> set (dependsOn node) \<subseteq> fst (v1, o1)"
        by (rule forEachM_visit_post [OF loop])
      have o1: "dependenciesFirst g (snd (v1, o1))"
      proof (rule forEachM_order [OF _ _ loop, where G = G])
        show "dependenciesFirst g (snd s')"
          if "d \<in> set (dependsOn node)" "visit fuel g d s = Some s'" "set (snd s) \<subseteq> fst s"
            "dependenciesFirst g (snd s)" "inProgress g s = G" for d s s'
        proof (rule Suc.IH [OF that(2) that(3) that(4)])
          show "\<forall>x \<in> inProgress g s. (x, d) \<in> (dependencyEdges g)\<^sup>+"
            using reach that(1,5) by blast
        qed
        show "visitPost g s s'" if "visit fuel g d s = Some s'" for d s s'
          using visit_post [OF that] by simp
        show "set (snd (insert n vis, ord)) \<subseteq> fst (insert n vis, ord)" using sub by auto
        show "dependenciesFirst g (snd (insert n vis, ord))" using Suc.prems(3) st by simp
        show "inProgress g (insert n vis, ord) = G" by (simp add: G_def)
      qed
      have sub1: "set (snd (insert n vis, ord)) \<subseteq> fst (insert n vis, ord)" using sub by auto
      from visitPost_inProgress [OF conjunct1 [OF post] sub1]
      have G1: "inProgress g (v1, o1) = G" by (simp add: G_def)
      have deps: "set (dependsOn node') \<inter> graphKeys g \<subseteq> set o1" if "map_of g n = Some node'" for node'
      proof
        fix d assume d: "d \<in> set (dependsOn node') \<inter> graphKeys g"
        from that Some have nn: "node' = node" by simp
        with d post have dv: "d \<in> v1" by auto
        show "d \<in> set o1"
        proof (rule ccontr)
          assume "d \<notin> set o1"
          with dv d have "d \<in> inProgress g (v1, o1)" by (simp add: inProgress_def)
          with G1 have "d \<in> G" by simp
          from d nn have e: "(n, d) \<in> dependencyEdges g" by (simp add: edge)
          have "(n, n) \<in> (dependencyEdges g)\<^sup>+"
          proof (cases "d = n")
            case True
            with e show ?thesis by auto
          next
            case False
            with \<open>d \<in> G\<close> G have "d \<in> inProgress g st" by simp
            with Suc.prems(4) have "(d, n) \<in> (dependencyEdges g)\<^sup>+" by blast
            with e show ?thesis by (rule trancl_into_trancl2)
          qed
          with acyc show False by (simp add: acyclic_def)
        qed
      qed
      from o1 have "dependenciesFirst g o1" by simp
      from dependenciesFirst_snoc [OF this deps] show ?thesis by (simp add: s')
    qed
  qed
qed

lemma topologicalSort_dependenciesFirst:
  assumes "acyclic (dependencyEdges graph)" "topologicalSort graph = Some ord"
  shows "dependenciesFirst graph ord"
proof -
  from topologicalSort_run [of graph] assms(2) obtain vis where
    run: "forEachM (visit (Suc (length graph)) graph) (map fst graph) ({}, []) = Some (vis, ord)"
    by auto
  have "dependenciesFirst graph (snd (vis, ord))"
  proof (rule forEachM_order [OF _ _ run, where G = "{}"])
    show "dependenciesFirst graph (snd s')"
      if "visit (Suc (length graph)) graph d s = Some s'" "set (snd s) \<subseteq> fst s"
        "dependenciesFirst graph (snd s)" "inProgress graph s = {}" for d s s'
      by (rule visit_order [OF assms(1) that(1) that(2) that(3)]) (simp add: that(4))
    show "visitPost graph s s'" if "visit (Suc (length graph)) graph d s = Some s'" for d s s'
      using visit_post [OF that] by simp
    show "set (snd ({}, [])) \<subseteq> fst ({}, [])" by simp
    show "dependenciesFirst graph (snd ({}, []))" by (simp add: dependenciesFirst_def)
    show "inProgress graph ({}, []) = {}" by (simp add: inProgress_def)
  qed
  then show ?thesis by simp
qed

lemma set_objectKeys: "set (objectKeys ids) = set ids"
  by (auto simp: objectKeys_def)

lemma graphKeys_buildDependencyGraph:
  "graphKeys (buildDependencyGraph sts) = set (map task_id sts)"
  by (simp add: graphKeys_def buildDependencyGraph_def image_image set_objectKeys)

lemma map_of_buildDependencyGraph:
  assumes "map_of (buildDependencyGraph sts) n = Some node"
  shows "\<exists>t \<in> set sts. task_id t = n \<and> dependsOn node = depends t"
proof -
  define t where "t = last (filter (\<lambda>t. task_id t = n) sts)"
  from map_of_SomeD [OF assms]
  have n: "n \<in> set (objectKeys (map task_id sts))" and node: "dependsOn node = depends t"
    by (auto simp: buildDependencyGraph_def Let_def t_def)
  from n have "n \<in> set (map task_id sts)" by (simp only: set_objectKeys)
  then have "filter (\<lambda>t. task_id t = n) sts \<noteq> []"
    by (auto simp: filter_empty_conv)
  then have "t \<in> set (filter (\<lambda>t. task_id t = n) sts)"
    unfolding t_def by (rule last_in_set)
  with node show ?thesis by auto
qed

lemma decompose_returns:
  "\<exists>ord. topologicalSort (buildDependencyGraph (validateSubtasks raw)) = Some ord
     \<and> decompose raw = Some \<lparr>subtasks = validateSubtasks raw,
                               dependencyGraph = buildDependencyGraph (validateSubtasks raw),
                               executionOrder = ord,
                               totalSteps = length (validateSubtasks raw)\<rparr>"
proof -
  from topologicalSort_run [of "buildDependencyGraph (validateSubtasks raw)"] obtain ord where
    "topologicalSort (buildDependencyGraph (validateSubtasks raw)) = Some ord" by blast
  then show ?thesis by (simp add: decompose_def Let_def)
qed

lemma decompose_graph_closed:
  assumes "decompose raw = Some p" "map_of (dependencyGraph p) n = Some node"
  shows "set (dependsOn node) \<subseteq> graphKeys (dependencyGraph p)"
proof
  fix d assume d: "d \<in> set (dependsOn node)"
  from decompose_returns [of raw] assms(1)
  have g: "dependencyGraph p = buildDependencyGraph (validateSubtasks raw)" by auto
  from map_of_buildDependencyGraph [OF assms(2) [unfolded g]] obtain t where
    t: "t \<in> set (validateSubtasks raw)" "dependsOn node = depends t" by blast
  from validateSubtasks_depends [OF t(1)] obtain t0 :: subtask where
    "depends t = remapDepends raw (depends t0)" by blast
  with d t(2) have "1 \<le> d \<and> d \<le> int (length raw)" by (simp add: remapDepends_range)
  then have "d \<in> set (map task_id (validateSubtasks raw))"
    by (simp only: validateSubtasks_ids) simp
  then show "d \<in> graphKeys (dependencyGraph p)"
    by (simp only: g graphKeys_buildDependencyGraph)
qed

lemma dependenciesFirst_split:
  assumes "dependenciesFirst g ord" "n \<in> set ord" "map_of g n = Some node"
    "d \<in> set (dependsOn node)" "d \<in> graphKeys g"
  shows "\<exists>pre post. ord = pre @ n # post \<and> d \<in> set pre"
proof -
  from assms(2) obtain i where i: "i < length ord" "ord ! i = n"
    by (auto simp: in_set_conv_nth)
  with assms(1,3) have "set (dependsOn node) \<inter> graphKeys g \<subseteq> set (take i ord)"
    by (simp add: dependenciesFirst_def)
  with assms(4,5) have "d \<in> set (take i ord)" by auto
  moreover have "ord = take i ord @ n # drop (Suc i) ord"
    using i id_take_nth_drop by metis
  ultimately show ?thesis by blast
qed

text \<open>
  Claim C7.  In every plan whose dependency graph is acyclic, the execution order lists every
  id of the \<open>dependsOn\<close> list of a node before the node itself.
\<close>

theorem executionOrder_dependencies_first:
  assumes plan: "decompose raw = Some p"
    and acyc: "acyclic (dependencyEdges (dependencyGraph p))"
    and node: "map_of (dependencyGraph p) n = Some node"
    and dep: "d \<in> set (dependsOn node)"
  shows "\<exists>pre post. executionOrder p = pre @ n # post \<and> d \<in> set pre"
proof -
  from decompose_returns [of raw] plan
  have ts: "topologicalSort (dependencyGraph p) = Some (executionOrder p)" by auto
  from topologicalSort_run [of "dependencyGraph p"] ts
  have keys: "set (executionOrder p) = graphKeys (dependencyGraph p)" by auto
  from node have "n \<in> graphKeys (dependencyGraph p)"
    by (auto simp: graphKeys_def dest: map_of_SomeD intro: rev_image_eqI)
  with keys have n: "n \<in> set (executionOrder p)" by simp
  from decompose_graph_closed [OF plan node] dep have d: "d \<in> graphKeys (dependencyGraph p)"
    by auto
  from topologicalSort_dependenciesFirst [OF acyc ts]
  have "dependenciesFirst (dependencyGraph p) (executionOrder p)" .
  from dependenciesFirst_split [OF this n node dep d] show ?thesis .
qed

lemma decompose_forward: "decompose forwardPlanInput = Some forwardPlan"
  by code_simp

lemma dependencyEdges_forward: "dependencyEdges (dependencyGraph forwardPlan) = {(1, 2)}"
  by (auto simp: dependencyEdges_def forwardPlan_def split: if_splits)

theorem executionOrder_dependencies_first_witness:
  "decompose forwardPlanInput = Some forwardPlan
   \<and> executionOrder forwardPlan = [2, 1]
   \<and> (\<exists>pre post. executionOrder forwardPlan = pre @ 1 # post \<and> 2 \<in> set pre)"
proof -
  have acyc: "acyclic (dependencyEdges (dependencyGraph forwardPlan))"
    by (rule acyclicI_order [where f = uminus]) (simp add: dependencyEdges_forward)
  have node: "map_of (dependencyGraph forwardPlan) 1
                = Some \<lparr>task = pendingTask 1 [2], dependsOn = [2], requiredBy = []\<rparr>"
    by (simp add: forwardPlan_def)
  have dep: "2 \<in> set (dependsOn \<lparr>task = pendingTask 1 [2], dependsOn = [2], requiredBy = []\<rparr>)"
    by simp
  have ord: "executionOrder forwardPlan = [2, 1]" by (simp add: forwardPlan_def)
  from executionOrder_dependencies_first [OF decompose_forward acyc node dep] decompose_forward ord
  show ?thesis by blast
qed

end
